theory Spec2Isabelle
  imports Main "HOL-Library.Sublist" "HOL-Library.FSet"
begin

section \<open>Python string operations used by scrape\_this.py\<close>

text \<open>
  Strings are \<open>char list\<close>s of ASCII text. Each function below is the Python \<open>str\<close>
  method named in its comment, written out for ASCII input.
\<close>

definition startswith :: "string \<Rightarrow> string \<Rightarrow> bool" where
  \<comment> \<open>\<open>s.startswith(p)\<close>\<close>
  "startswith s p = prefix p s"

definition endswith :: "string \<Rightarrow> string \<Rightarrow> bool" where
  \<comment> \<open>\<open>s.endswith(p)\<close>\<close>
  "endswith s p = suffix p s"

fun contains :: "string \<Rightarrow> string \<Rightarrow> bool" where
  \<comment> \<open>\<open>sub in s\<close>, written \<open>contains sub s\<close>\<close>
  "contains sub [] = (sub = [])"
| "contains sub (c # cs) = (prefix sub (c # cs) \<or> contains sub cs)"

definition lower_char :: "char \<Rightarrow> char" where
  "lower_char c =
     (let n = (of_char c :: nat) in if 65 \<le> n \<and> n \<le> 90 then char_of (n + 32) else c)"

definition lower :: "string \<Rightarrow> string" where
  \<comment> \<open>\<open>s.lower()\<close>\<close>
  "lower s = map lower_char s"

definition is_space :: "char \<Rightarrow> bool" where
  \<comment> \<open>the ASCII characters for which \<open>str.isspace\<close> holds: 9 to 13, 28 to 31 and 32\<close>
  "is_space c = (let n = (of_char c :: nat) in (9 \<le> n \<and> n \<le> 13) \<or> (28 \<le> n \<and> n \<le> 32))"

definition strip :: "string \<Rightarrow> string" where
  \<comment> \<open>\<open>s.strip()\<close>\<close>
  "strip s = rev (dropWhile is_space (rev (dropWhile is_space s)))"

definition lstrip_char :: "char \<Rightarrow> string \<Rightarrow> string" where
  \<comment> \<open>\<open>s.lstrip(c)\<close> for a one-character argument\<close>
  "lstrip_char c s = dropWhile (\<lambda>x. x = c) s"

fun split_on :: "char \<Rightarrow> string \<Rightarrow> string list" where
  \<comment> \<open>\<open>s.split(sep)\<close> for a one-character separator: never the empty list\<close>
  "split_on sep [] = [[]]"
| "split_on sep (c # cs) =
     (if c = sep then [] # split_on sep cs
      else (case split_on sep cs of [] \<Rightarrow> [[c]] | w # ws \<Rightarrow> (c # w) # ws))"

fun find_char :: "char \<Rightarrow> string \<Rightarrow> nat option" where
  \<comment> \<open>\<open>s.find(c)\<close>; \<open>None\<close> is Python's \<open>-1\<close>\<close>
  "find_char c [] = None"
| "find_char c (x # xs) =
     (if x = c then Some 0 else (case find_char c xs of None \<Rightarrow> None | Some i \<Rightarrow> Some (Suc i)))"

fun rfind_char :: "char \<Rightarrow> string \<Rightarrow> nat option" where
  \<comment> \<open>\<open>s.rfind(c)\<close>; \<open>None\<close> is Python's \<open>-1\<close>\<close>
  "rfind_char c [] = None"
| "rfind_char c (x # xs) =
     (case rfind_char c xs of
        Some i \<Rightarrow> Some (Suc i)
      | None \<Rightarrow> if x = c then Some 0 else None)"

function replace :: "string \<Rightarrow> string \<Rightarrow> string \<Rightarrow> string" where
  \<comment> \<open>\<open>s.replace(old, new)\<close>, written \<open>replace old new s\<close>: every non-overlapping
      occurrence, leftmost first\<close>
  "replace old new s =
     (if old = [] then new @ concat (map (\<lambda>c. c # new) s)
      else if s = [] then []
      else if prefix old s then new @ replace old new (drop (length old) s)
      else hd s # replace old new (tl s))"
  by pat_completeness auto
termination
  by (relation "measure (\<lambda>(old, new, s). length s)") auto

section \<open>pathlib: the suffix of a path\<close>

definition path_name :: "string \<Rightarrow> string" where
  \<comment> \<open>\<open>Path(p).name\<close> on a POSIX system: the last component, empty and \<open>.\<close>
      components dropped\<close>
  "path_name p =
     (case rev (filter (\<lambda>seg. seg \<noteq> [] \<and> seg \<noteq> ''.'') (split_on CHR ''/'' p)) of
        [] \<Rightarrow> []
      | seg # _ \<Rightarrow> seg)"

definition path_suffix :: "string \<Rightarrow> string" where
  \<comment> \<open>\<open>Path(p).suffix\<close> (Python 3.8 to 3.12): from the last dot of the name, unless
      that dot is the first or the last character\<close>
  "path_suffix p =
     (let name = path_name p in
      case rfind_char CHR ''.'' name of
        None \<Rightarrow> []
      | Some i \<Rightarrow> if 0 < i \<and> i + 1 < length name then drop i name else [])"

section \<open>Domain classification\<close>

definition is_subdomain_of :: "string \<Rightarrow> string \<Rightarrow> bool" where
  "is_subdomain_of domain base_domain =
     (if domain = [] \<or> base_domain = [] \<or> domain = base_domain then False
      else
        let domain_clean = replace ''www.'' [] domain;
            base_clean = replace ''www.'' [] base_domain
        in if domain_clean = base_clean then False
           else endswith domain_clean (''.'' @ base_clean))"

definition is_same_or_subdomain :: "string \<Rightarrow> string \<Rightarrow> bool" where
  "is_same_or_subdomain domain base_domain =
     (if domain = [] \<or> base_domain = [] then False
      else
        let domain_clean = replace ''www.'' [] domain;
            base_clean = replace ''www.'' [] base_domain
        in if domain_clean = base_clean then True
           else endswith domain_clean (''.'' @ base_clean))"

section \<open>urllib.parse: the library functions the scraper calls\<close>

record parse_result =
  pr_scheme :: string
  pr_netloc :: string
  pr_path :: string
  pr_params :: string
  pr_query :: string
  pr_fragment :: string

text \<open>
  \<open>urljoin\<close> and \<open>urlparse\<close> belong to Python's standard library, not to this
  repository. The scraper's functions below take them as parameters, so that every
  general theorem holds whatever the library computes; \<open>None\<close> stands for the
  \<open>ValueError\<close> both can raise. The record \<open>urllib\<close> bundles the two.
\<close>

record urllib =
  urljoin :: "string \<Rightarrow> string \<Rightarrow> string option"
  urlparse :: "string \<Rightarrow> parse_result option"

text \<open>
  For evaluation at concrete URLs, \<open>py_urlparse\<close> and \<open>py_urljoin\<close> follow CPython
  3.11's \<open>urllib/parse.py\<close> on ASCII URLs. A network location with a square bracket
  is reported as \<open>ValueError\<close> here; CPython accepts it when it is a valid IPv6 or
  IPvFuture literal.
\<close>

definition scheme_chars :: string where
  "scheme_chars = ''abcdefghijklmnopqrstuvwxyzABCDEFGHIJKLMNOPQRSTUVWXYZ0123456789+-.''"

definition uses_relative :: "string list" where
  "uses_relative = ['''', ''ftp'', ''http'', ''gopher'', ''nntp'', ''imap'', ''wais'', ''file'',
     ''https'', ''shttp'', ''mms'', ''prospero'', ''rtsp'', ''rtsps'', ''rtspu'', ''sftp'',
     ''svn'', ''svn+ssh'', ''ws'', ''wss'']"

definition uses_netloc :: "string list" where
  "uses_netloc = ['''', ''ftp'', ''http'', ''gopher'', ''nntp'', ''telnet'', ''imap'', ''wais'',
     ''file'', ''mms'', ''https'', ''shttp'', ''snews'', ''prospero'', ''rtsp'', ''rtsps'',
     ''rtspu'', ''rsync'', ''svn'', ''svn+ssh'', ''sftp'', ''nfs'', ''git'', ''git+ssh'',
     ''ws'', ''wss'']"

definition uses_params :: "string list" where
  "uses_params = ['''', ''ftp'', ''hdl'', ''prospero'', ''http'', ''imap'', ''https'', ''shttp'',
     ''rtsp'', ''rtsps'', ''rtspu'', ''sip'', ''sips'', ''mms'', ''sftp'', ''tel'']"

definition is_ascii_alpha :: "char \<Rightarrow> bool" where
  "is_ascii_alpha c =
     (let n = (of_char c :: nat) in (65 \<le> n \<and> n \<le> 90) \<or> (97 \<le> n \<and> n \<le> 122))"

definition split_once :: "char \<Rightarrow> string \<Rightarrow> string \<times> string" where
  \<comment> \<open>\<open>s.split(c, 1)\<close> for a string that contains \<open>c\<close>\<close>
  "split_once c s = (takeWhile (\<lambda>x. x \<noteq> c) s, drop 1 (dropWhile (\<lambda>x. x \<noteq> c) s))"

definition clean_url :: "string \<Rightarrow> string" where
  \<comment> \<open>leading C0 control characters and spaces stripped, then tab, CR and LF removed\<close>
  "clean_url s =
     filter (\<lambda>c. c \<noteq> CHR 0x09 \<and> c \<noteq> CHR 0x0D \<and> c \<noteq> CHR 0x0A)
       (dropWhile (\<lambda>c. (of_char c :: nat) \<le> 32) s)"

definition clean_scheme :: "string \<Rightarrow> string" where
  "clean_scheme s =
     filter (\<lambda>c. c \<noteq> CHR 0x09 \<and> c \<noteq> CHR 0x0D \<and> c \<noteq> CHR 0x0A)
       (rev (dropWhile (\<lambda>c. (of_char c :: nat) \<le> 32)
         (rev (dropWhile (\<lambda>c. (of_char c :: nat) \<le> 32) s))))"

definition netloc_delim :: "char \<Rightarrow> bool" where
  "netloc_delim c = (c = CHR ''/'' \<or> c = CHR ''?'' \<or> c = CHR ''#'')"

definition py_urlsplit ::
  "string \<Rightarrow> string \<Rightarrow> (string \<times> string \<times> string \<times> string \<times> string) option" where
  "py_urlsplit url0 scheme0 =
     (let url1 = clean_url url0;
          scheme1 = clean_scheme scheme0;
          (scheme, url2) =
            (case find_char CHR '':'' url1 of
               None \<Rightarrow> (scheme1, url1)
             | Some i \<Rightarrow>
                 if 0 < i \<and> (case url1 of [] \<Rightarrow> False | c # _ \<Rightarrow> is_ascii_alpha c)
                    \<and> list_all (\<lambda>c. c \<in> set scheme_chars) (take i url1)
                 then (lower (take i url1), drop (Suc i) url1)
                 else (scheme1, url1));
          (netloc, url3) =
            (if take 2 url2 = ''//''
             then (takeWhile (\<lambda>c. \<not> netloc_delim c) (drop 2 url2),
                   dropWhile (\<lambda>c. \<not> netloc_delim c) (drop 2 url2))
             else ([], url2))
      in if CHR ''['' \<in> set netloc \<or> CHR '']'' \<in> set netloc then None
         else
           let (url4, fragment) =
                 (if CHR ''#'' \<in> set url3 then split_once CHR ''#'' url3 else (url3, []));
               (url5, query) =
                 (if CHR ''?'' \<in> set url4 then split_once CHR ''?'' url4 else (url4, []))
           in Some (scheme, netloc, url5, query, fragment))"

definition splitparams :: "string \<Rightarrow> string \<times> string" where
  "splitparams url =
     (case rfind_char CHR ''/'' url of
        Some k \<Rightarrow>
          (case find_char CHR '';'' (drop k url) of
             None \<Rightarrow> (url, [])
           | Some j \<Rightarrow> (take (k + j) url, drop (Suc (k + j)) url))
      | None \<Rightarrow>
          (case find_char CHR '';'' url of
             None \<Rightarrow> (url, [])
           | Some i \<Rightarrow> (take i url, drop (Suc i) url)))"

definition py_urlparse_with :: "string \<Rightarrow> string \<Rightarrow> parse_result option" where
  \<comment> \<open>\<open>urlparse(url, scheme)\<close>\<close>
  "py_urlparse_with url scheme0 =
     (case py_urlsplit url scheme0 of
        None \<Rightarrow> None
      | Some (scheme, netloc, rest, query, fragment) \<Rightarrow>
          let (path, params) =
                (if scheme \<in> set uses_params \<and> CHR '';'' \<in> set rest
                 then splitparams rest else (rest, []))
          in Some \<lparr>pr_scheme = scheme, pr_netloc = netloc, pr_path = path,
                   pr_params = params, pr_query = query, pr_fragment = fragment\<rparr>)"

definition py_urlparse :: "string \<Rightarrow> parse_result option" where
  \<comment> \<open>\<open>urlparse(url)\<close>\<close>
  "py_urlparse url = py_urlparse_with url []"

definition py_urlunparse :: "parse_result \<Rightarrow> string" where
  "py_urlunparse p =
     (let url = (if pr_params p \<noteq> [] then pr_path p @ '';'' @ pr_params p else pr_path p);
          url = (if pr_netloc p \<noteq> [] \<or> (pr_scheme p \<noteq> [] \<and> pr_scheme p \<in> set uses_netloc)
                    \<or> take 2 url = ''//''
                 then ''//'' @ pr_netloc p
                      @ (if url \<noteq> [] \<and> take 1 url \<noteq> ''/'' then ''/'' @ url else url)
                 else url);
          url = (if pr_scheme p \<noteq> [] then pr_scheme p @ '':'' @ url else url);
          url = (if pr_query p \<noteq> [] then url @ ''?'' @ pr_query p else url);
          url = (if pr_fragment p \<noteq> [] then url @ ''#'' @ pr_fragment p else url)
      in url)"

fun resolve_segments :: "string list \<Rightarrow> string list \<Rightarrow> string list" where
  \<comment> \<open>the loop over \<open>segments\<close> in \<open>urljoin\<close>; the second argument is \<open>resolved_path\<close>\<close>
  "resolve_segments [] resolved = resolved"
| "resolve_segments (seg # segs) resolved =
     (if seg = ''..'' then resolve_segments segs (butlast resolved)
      else if seg = ''.'' then resolve_segments segs resolved
      else resolve_segments segs (resolved @ [seg]))"

fun join_with :: "char \<Rightarrow> string list \<Rightarrow> string" where
  \<comment> \<open>\<open>sep.join(parts)\<close>\<close>
  "join_with sep [] = []"
| "join_with sep [p] = p"
| "join_with sep (p # q # ps) = p @ sep # join_with sep (q # ps)"

definition squeeze_middle :: "string list \<Rightarrow> string list" where
  \<comment> \<open>\<open>segments[1:-1] = filter(None, segments[1:-1])\<close>\<close>
  "squeeze_middle segs =
     (case segs of
        [] \<Rightarrow> []
      | [s] \<Rightarrow> [s]
      | s # rest \<Rightarrow> s # filter (\<lambda>x. x \<noteq> []) (butlast rest) @ [last rest])"

definition py_urljoin :: "string \<Rightarrow> string \<Rightarrow> string option" where
  "py_urljoin base url =
     (if base = [] then Some url
      else if url = [] then Some base
      else
        case py_urlparse_with base [] of
          None \<Rightarrow> None
        | Some b \<Rightarrow>
           (case py_urlparse_with url (pr_scheme b) of
              None \<Rightarrow> None
            | Some u \<Rightarrow>
                if pr_scheme u \<noteq> pr_scheme b \<or> pr_scheme u \<notin> set uses_relative then Some url
                else if pr_scheme u \<in> set uses_netloc \<and> pr_netloc u \<noteq> []
                then Some (py_urlunparse u)
                else
                  let netloc = (if pr_scheme u \<in> set uses_netloc then pr_netloc b
                                else pr_netloc u)
                  in if pr_path u = [] \<and> pr_params u = []
                     then Some (py_urlunparse
                            (u\<lparr>pr_netloc := netloc, pr_path := pr_path b,
                               pr_params := pr_params b,
                               pr_query := (if pr_query u = [] then pr_query b
                                            else pr_query u)\<rparr>))
                     else
                       let base_parts0 = split_on CHR ''/'' (pr_path b);
                           base_parts = (if base_parts0 \<noteq> [] \<and> last base_parts0 \<noteq> []
                                         then butlast base_parts0 else base_parts0);
                           segments =
                             (if take 1 (pr_path u) = ''/'' then split_on CHR ''/'' (pr_path u)
                              else squeeze_middle (base_parts @ split_on CHR ''/'' (pr_path u)));
                           resolved0 = resolve_segments segments [];
                           resolved =
                             (if segments \<noteq> [] \<and> (last segments = ''.'' \<or> last segments = ''..'')
                              then resolved0 @ [[]] else resolved0);
                           joined = join_with CHR ''/'' resolved
                       in Some (py_urlunparse
                            (u\<lparr>pr_netloc := netloc,
                               pr_path := (if joined = [] then ''/'' else joined)\<rparr>))))"

definition py_urllib :: urllib where
  "py_urllib = \<lparr>urljoin = py_urljoin, urlparse = py_urlparse\<rparr>"

section \<open>Link types\<close>

definition image_extensions :: "string set" where
  "image_extensions =
     {''.jpg'', ''.jpeg'', ''.png'', ''.gif'', ''.bmp'', ''.svg'', ''.webp'', ''.ico''}"

definition doc_extensions :: "string set" where
  "doc_extensions =
     {''.pdf'', ''.doc'', ''.docx'', ''.xls'', ''.xlsx'', ''.ppt'', ''.pptx'', ''.txt'', ''.rtf''}"

definition video_extensions :: "string set" where
  "video_extensions = {''.mp4'', ''.avi'', ''.mkv'', ''.mov'', ''.wmv'', ''.flv'', ''.webm''}"

definition audio_extensions :: "string set" where
  "audio_extensions = {''.mp3'', ''.wav'', ''.flac'', ''.aac'', ''.ogg'', ''.wma''}"

definition archive_extensions :: "string set" where
  "archive_extensions = {''.zip'', ''.rar'', ''.tar'', ''.gz'', ''.7z'', ''.bz2''}"

definition code_extensions :: "string set" where
  "code_extensions =
     {''.js'', ''.css'', ''.json'', ''.xml'', ''.html'', ''.htm'', ''.php'', ''.py'', ''.java''}"

definition get_link_type :: "urllib \<Rightarrow> string \<Rightarrow> string option" where
  \<comment> \<open>\<open>None\<close>: \<open>urlparse\<close> raised\<close>
  "get_link_type L u =
     (case urlparse L u of
        None \<Rightarrow> None
      | Some parsed \<Rightarrow>
          let p = lower (pr_path parsed);
              file_ext = lower (path_suffix p)
          in Some
            (if file_ext \<in> image_extensions then ''image''
             else if file_ext \<in> doc_extensions then ''document''
             else if file_ext \<in> video_extensions then ''video''
             else if file_ext \<in> audio_extensions then ''audio''
             else if file_ext \<in> archive_extensions then ''archive''
             else if file_ext \<in> code_extensions then ''code''
             else if contains ''?'' (pr_query parsed) \<or> contains ''api'' p then ''api''
             else if file_ext = [] then ''page''
             else ''other''))"

section \<open>Link records and the filters\<close>

text \<open>
  The dictionary \<open>link_data\<close>, one field per key; the key \<open>text\<close> is the field
  \<open>link_text\<close>. The keys that \<open>validate_links\<close> adds later are left out.
\<close>

record link =
  url :: string
  link_text :: string
  domain :: string
  path :: string
  query :: string
  fragment :: string
  is_internal :: bool
  is_subdomain :: bool
  link_type :: string
  source :: string
  original_href :: string
  found_on_page :: string

definition filter_by_extensions :: "link list \<Rightarrow> string list \<Rightarrow> link list" where
  "filter_by_extensions links extension_filters =
     foldl (\<lambda>filtered l.
              if list_ex (\<lambda>ext. endswith (lower (url l)) (''.'' @ ext)) extension_filters
              then filtered @ [l] else filtered)
       [] links"

definition type_groups :: "string \<Rightarrow> string list option" where
  "type_groups = map_of
     [(''images'', [''image'']),
      (''documents'', [''document'']),
      (''media'', [''video'', ''audio'']),
      (''pages'', [''page'']),
      (''files'', [''document'', ''image'', ''video'', ''audio'', ''archive'']),
      (''code'', [''code'']),
      (''api'', [''api''])]"

definition expand_filters :: "string list \<Rightarrow> string set" where
  \<comment> \<open>the loop that builds \<open>expanded_filters\<close>\<close>
  "expand_filters type_filters =
     foldl (\<lambda>expanded filter_type.
              case type_groups filter_type of
                Some ts \<Rightarrow> expanded \<union> set ts
              | None \<Rightarrow> insert filter_type expanded)
       {} type_filters"

definition filter_by_types :: "link list \<Rightarrow> string list \<Rightarrow> link list" where
  "filter_by_types links type_filters =
     (let expanded_filters = expand_filters type_filters
      in foldl (\<lambda>filtered l.
                  if link_type l \<in> expanded_filters then filtered @ [l]
                  else if list_ex (\<lambda>filter_ext. contains (''.'' @ filter_ext) (lower (url l)))
                            type_filters
                  then filtered @ [l]
                  else filtered)
           [] links)"

definition extension_filters_of :: "string \<Rightarrow> string list" where
  \<comment> \<open>\<open>[ext.strip().lower().lstrip('.') for ext in extensions.split(',')]\<close>\<close>
  "extension_filters_of extensions =
     map (\<lambda>ext. lstrip_char CHR ''.'' (lower (strip ext))) (split_on CHR '','' extensions)"

definition type_filters_of :: "string \<Rightarrow> string list" where
  \<comment> \<open>\<open>[t.strip().lower() for t in filter_types.split(',')]\<close>\<close>
  "type_filters_of filter_types =
     map (\<lambda>t. lower (strip t)) (split_on CHR '','' filter_types)"

definition filter_links ::
  "link list \<Rightarrow> bool \<Rightarrow> bool \<Rightarrow> bool \<Rightarrow> string option \<Rightarrow> string option \<Rightarrow> bool
     \<Rightarrow> link list option \<Rightarrow> link list" where
  \<comment> \<open>an option is \<open>None\<close> or the empty string when the command line does not give it;
      \<open>unique_only\<close> and \<open>existing_links\<close> are parameters the body never reads\<close>
  "filter_links links internal_only external_only subdomains_only extensions filter_types
       unique_only existing_links =
     (let filtered =
            (if internal_only then filter is_internal links
             else if external_only
             then filter (\<lambda>l. \<not> is_internal l \<and> \<not> is_subdomain l) links
             else if subdomains_only then filter is_subdomain links
             else links);
          filtered =
            (case extensions of
               None \<Rightarrow> filtered
             | Some e \<Rightarrow>
                 if e = [] then filtered
                 else filter_by_extensions filtered (extension_filters_of e));
          filtered =
            (case filter_types of
               None \<Rightarrow> filtered
             | Some t \<Rightarrow>
                 if t = [] then filtered
                 else filter_by_types filtered (type_filters_of t))
      in filtered)"

section \<open>Link extraction from one page\<close>

text \<open>
  What the scraper reads of a fetched page: the title, the elements of
  \<open>response.css('a')\<close> and the texts of \<open>response.css('a::attr(href)')\<close>. Of an
  anchor element it reads the \<open>href\<close> attribute through \<open>elem.attrs\<close> (\<open>None\<close> when the
  element has no \<open>attrs\<close>, as the elements of a backend that names its attribute map
  otherwise, or no such attribute), the text, and the region tag that
  \<open>detect_link_source\<close> computes for it, kept here as the field \<open>a_source\<close>.
\<close>

record anchor =
  a_href :: "string option"
  a_text :: string
  a_source :: string

record response =
  r_title :: string
  r_anchors :: "anchor list"
  r_href_attrs :: "string list"

fun dict_set :: "'k \<Rightarrow> 'v \<Rightarrow> ('k \<times> 'v) list \<Rightarrow> ('k \<times> 'v) list" where
  \<comment> \<open>\<open>d[k] = v\<close> on an insertion-ordered dictionary: a key already present keeps
      its place and takes the new value\<close>
  "dict_set k v [] = [(k, v)]"
| "dict_set k v ((k', v') # kvs) =
     (if k' = k then (k, v) # kvs else (k', v') # dict_set k v kvs)"

definition first_pass :: "anchor list \<Rightarrow> (string \<times> string \<times> string) list" where
  \<comment> \<open>the loop over \<open>link_elements\<close>; a dictionary value is the pair of \<open>text\<close> and
      \<open>source\<close>\<close>
  "first_pass elems =
     foldl (\<lambda>href_to_data elem.
              case a_href elem of
                None \<Rightarrow> href_to_data
              | Some href \<Rightarrow>
                  if href = [] then href_to_data
                  else dict_set (strip href) (strip (a_text elem), a_source elem) href_to_data)
       [] elems"

definition fallback_pass :: "string list \<Rightarrow> (string \<times> string \<times> string) list" where
  "fallback_pass href_elements =
     foldl (\<lambda>href_to_data href_text.
              if href_text = [] then href_to_data
              else dict_set (strip href_text) ([], ''unknown'') href_to_data)
       [] href_elements"

definition collect_hrefs :: "response \<Rightarrow> (string \<times> string \<times> string) list" where
  "collect_hrefs r =
     (let href_to_data = first_pass (r_anchors r)
      in if href_to_data = [] then fallback_pass (r_href_attrs r) else href_to_data)"

definition anchor_key :: "anchor \<Rightarrow> string option" where
  \<comment> \<open>the dictionary key under which the first pass stores an anchor: its stripped
      \<open>href\<close>; \<open>None\<close> for an anchor the first pass leaves out\<close>
  "anchor_key a =
     (case a_href a of None \<Rightarrow> None | Some h \<Rightarrow> if h = [] then None else Some (strip h))"

datatype 'a outcome = Skip | Raised | Emit 'a

definition process_href ::
  "urllib \<Rightarrow> string \<Rightarrow> string \<Rightarrow> bool \<Rightarrow> string \<times> string \<times> string \<Rightarrow> link outcome" where
  \<comment> \<open>the body of the loop over \<open>href_to_data.items()\<close> for one entry: \<open>Skip\<close> when no
      link is appended, \<open>Emit\<close> the link appended, \<open>Raised\<close> when \<open>urljoin\<close> or
      \<open>urlparse\<close> raised\<close>
  "process_href L current_url base_domain include_subdomains entry =
     (case entry of (href, txt, src) \<Rightarrow>
        if href = [] then Skip
        else if startswith href ''#'' \<or> startswith href ''mailto:''
                \<or> startswith href ''javascript:'' then Skip
        else
          case urljoin L current_url href of
            None \<Rightarrow> Raised
          | Some absolute_url \<Rightarrow>
             (case urlparse L absolute_url of
                None \<Rightarrow> Raised
              | Some parsed_url \<Rightarrow>
                  if pr_scheme parsed_url = ''http'' \<or> pr_scheme parsed_url = ''https'' then
                    let internal0 = (pr_netloc parsed_url = base_domain
                                     \<or> pr_netloc parsed_url = []);
                        subdomain = is_subdomain_of (pr_netloc parsed_url) base_domain;
                        internal1 = (if is_same_or_subdomain (pr_netloc parsed_url) base_domain
                                     then True else internal0);
                        internal2 = (if include_subdomains \<and> subdomain then True
                                     else internal1)
                    in (case get_link_type L absolute_url of
                          None \<Rightarrow> Raised
                        | Some lt \<Rightarrow>
                            Emit \<lparr>url = absolute_url, link_text = txt,
                                  domain = pr_netloc parsed_url, path = pr_path parsed_url,
                                  query = pr_query parsed_url,
                                  fragment = pr_fragment parsed_url,
                                  is_internal = internal2, is_subdomain = subdomain,
                                  link_type = lt, source = src, original_href = href,
                                  found_on_page = current_url\<rparr>)
                  else Skip))"

fun process_hrefs ::
  "urllib \<Rightarrow> string \<Rightarrow> string \<Rightarrow> bool \<Rightarrow> (string \<times> string \<times> string) list
     \<Rightarrow> link list \<Rightarrow> link list" where
  \<comment> \<open>the loop over \<open>href_to_data.items()\<close>; an exception leaves the loop through the
      outer \<open>except\<close>, which returns the links appended so far\<close>
  "process_hrefs L current_url base_domain include_subdomains [] all_links = all_links"
| "process_hrefs L current_url base_domain include_subdomains (entry # rest) all_links =
     (case process_href L current_url base_domain include_subdomains entry of
        Skip \<Rightarrow> process_hrefs L current_url base_domain include_subdomains rest all_links
      | Raised \<Rightarrow> all_links
      | Emit link_data \<Rightarrow>
          process_hrefs L current_url base_domain include_subdomains rest
            (all_links @ [link_data]))"

definition emitted :: "link outcome \<Rightarrow> link list" where
  \<comment> \<open>what one entry adds to \<open>all_links\<close>\<close>
  "emitted x = (case x of Emit l \<Rightarrow> [l] | _ \<Rightarrow> [])"

definition extract_links_from_page ::
  "urllib \<Rightarrow> response \<Rightarrow> string \<Rightarrow> string \<Rightarrow> bool \<Rightarrow> link list" where
  "extract_links_from_page L r current_url base_domain include_subdomains =
     process_hrefs L current_url base_domain include_subdomains (collect_hrefs r) []"

section \<open>The crawl loop of the scrape command\<close>

text \<open>
  The options of the command that the link-extraction mode reads, and the two Scrapling
  fetchers it calls (\<open>None\<close>: the call raised). Comment extraction
  (\<open>--include-comments\<close>) only adds keys to the page record and is left out.
\<close>

record options =
  depth :: int
  max_pages :: int
  javascript :: bool
  internal_only :: bool
  external_only :: bool
  subdomains_only :: bool
  include_subdomains :: bool
  extensions :: "string option"
  filter_types :: "string option"
  unique_only :: bool

record fetchers =
  stealthy_fetch :: "string \<Rightarrow> response option"
  fetcher_get :: "string \<Rightarrow> response option"

datatype request = StealthyFetch string | FetcherGet string


record page_data =
  pd_url :: string
  pd_depth :: int
  pd_title :: string
  pd_links_on_page :: nat
  pd_internal_links :: nat
  pd_external_links :: nat
  pd_subdomain_links :: nat
  pd_files_found :: nat

text \<open>
  The variables of the loop. Three traces make the loop's effects on the outside visible:
  \<open>fetch_log\<close> lists the URLs whose fetch an iteration started, in order; \<open>requests\<close>
  lists every call of a fetcher, so that the second request of the JavaScript fallback
  shows; and \<open>warnings\<close> lists the URLs for which the warning \<open>Failed to crawl\<close>
  was printed.
\<close>

record crawl_state =
  visited :: "string fset"
  to_visit :: "(string \<times> int) list"
  all_pages :: "page_data list"
  all_links :: "link list"
  total_pages_crawled :: nat
  total_links_found :: nat
  files_found :: "link list"
  fetch_log :: "string list"
  warnings :: "string list"
  requests :: "request list"

definition fetch_page :: "fetchers \<Rightarrow> bool \<Rightarrow> string \<Rightarrow> response option" where
  \<comment> \<open>the fetch of one iteration: in JavaScript mode the stealthy fetcher, and the plain
      fetcher when that one raises\<close>
  "fetch_page F js u =
     (if js then (case stealthy_fetch F u of Some r \<Rightarrow> Some r | None \<Rightarrow> fetcher_get F u)
      else fetcher_get F u)"

definition fetch_requests :: "fetchers \<Rightarrow> bool \<Rightarrow> string \<Rightarrow> request list" where
  \<comment> \<open>the fetcher calls that \<open>fetch_page\<close> makes: in JavaScript mode
      \<open>fetcher_class.fetch\<close>, followed by \<open>Fetcher.get\<close> on the same URL when it raised\<close>
  "fetch_requests F js u =
     (if js then (case stealthy_fetch F u of
                    Some r \<Rightarrow> [StealthyFetch u]
                  | None \<Rightarrow> [StealthyFetch u, FetcherGet u])
      else [FetcherGet u])"

fun enqueue_links ::
  "urllib \<Rightarrow> bool \<Rightarrow> string fset \<Rightarrow> int \<Rightarrow> link list \<Rightarrow> (string \<times> int) list
     \<Rightarrow> (string \<times> int) list \<times> bool" where
  \<comment> \<open>the loop \<open>for link in page_links\<close> that appends to \<open>to_visit\<close>; the flag tells
      that \<open>urlparse\<close> raised, which ends the loop with the queue as it is then\<close>
  "enqueue_links L incl vis current_depth [] q = (q, False)"
| "enqueue_links L incl vis current_depth (l # ls) q =
     (if is_internal l \<or> (incl \<and> is_subdomain l) then
        (case urlparse L (url l) of
           None \<Rightarrow> (q, True)
         | Some parsed_link \<Rightarrow>
             if path_suffix (pr_path parsed_link) = [] \<and> url l |\<notin>| vis
             then enqueue_links L incl vis current_depth ls (q @ [(url l, current_depth + 1)])
             else enqueue_links L incl vis current_depth ls q)
      else enqueue_links L incl vis current_depth ls q)"

definition page_files_of :: "options \<Rightarrow> link list \<Rightarrow> link list" where
  \<comment> \<open>\<open>page_files\<close>, the links added to \<open>files_found\<close>: none without \<open>--extensions\<close>\<close>
  "page_files_of opts page_links =
     (case extensions opts of
        None \<Rightarrow> []
      | Some e \<Rightarrow>
          if e = [] then []
          else filter (\<lambda>l. list_ex (\<lambda>ext. endswith (lower (url l)) (''.'' @ ext))
                                (extension_filters_of e))
                 page_links)"

definition make_page_data :: "options \<Rightarrow> string \<Rightarrow> int \<Rightarrow> response \<Rightarrow> link list \<Rightarrow> page_data" where
  "make_page_data opts current_url current_depth r page_links =
     \<lparr>pd_url = current_url, pd_depth = current_depth, pd_title = r_title r,
      pd_links_on_page = length page_links,
      pd_internal_links = length (filter is_internal page_links),
      pd_external_links =
        length (filter (\<lambda>l. \<not> is_internal l \<and> \<not> is_subdomain l) page_links),
      pd_subdomain_links = length (filter is_subdomain page_links),
      pd_files_found = length (page_files_of opts page_links)\<rparr>"

definition crawl_step :: "urllib \<Rightarrow> fetchers \<Rightarrow> options \<Rightarrow> string \<Rightarrow> crawl_state \<Rightarrow> crawl_state" where
  \<comment> \<open>one iteration of the \<open>while\<close> loop; the loop condition keeps the queue
      non-empty, so the first branch is never taken inside the loop\<close>
  "crawl_step L F opts base_domain s =
     (case to_visit s of
        [] \<Rightarrow> s
      | (current_url, current_depth) # rest \<Rightarrow>
          let s1 = s\<lparr>to_visit := rest\<rparr>
          in if current_url |\<in>| visited s1 \<or> current_depth > depth opts then s1
             else
               let s2 = s1\<lparr>visited := finsert current_url (visited s1),
                          total_pages_crawled := total_pages_crawled s1 + 1,
                          fetch_log := fetch_log s1 @ [current_url],
                          requests := requests s1
                            @ fetch_requests F (javascript opts) current_url\<rparr>
               in case fetch_page F (javascript opts) current_url of
                    None \<Rightarrow> s2\<lparr>warnings := warnings s2 @ [current_url]\<rparr>
                  | Some r \<Rightarrow>
                      let page_links = extract_links_from_page L r current_url base_domain
                                         (include_subdomains opts);
                          filtered_page_links =
                            filter_links page_links (internal_only opts) (external_only opts)
                              (subdomains_only opts) (extensions opts) (filter_types opts)
                              (unique_only opts)
                              (if unique_only opts then Some (all_links s2) else None);
                          pd = make_page_data opts current_url current_depth r page_links;
                          s3 = s2\<lparr>files_found := files_found s2 @ page_files_of opts page_links,
                                     all_links := all_links s2 @ filtered_page_links,
                                     total_links_found :=
                                       total_links_found s2 + length filtered_page_links\<rparr>
                      in if current_depth < depth opts then
                           (case enqueue_links L (include_subdomains opts) (visited s3)
                                   current_depth page_links (to_visit s3) of
                              (q, raised) \<Rightarrow>
                                if raised
                                then s3\<lparr>to_visit := q, warnings := warnings s3 @ [current_url]\<rparr>
                                else s3\<lparr>to_visit := q, all_pages := all_pages s3 @ [pd]\<rparr>)
                         else s3\<lparr>all_pages := all_pages s3 @ [pd]\<rparr>)"

definition loop_cond :: "options \<Rightarrow> crawl_state \<Rightarrow> bool" where
  \<comment> \<open>\<open>while to_visit and len(visited) < max_pages\<close>\<close>
  "loop_cond opts s = (to_visit s \<noteq> [] \<and> int (fcard (visited s)) < max_pages opts)"

lemma crawl_step_measure:
  assumes "loop_cond opts s"
  shows "(fcard (visited (crawl_step L F opts base_domain s)) = fcard (visited s)
            \<and> length (to_visit (crawl_step L F opts base_domain s)) < length (to_visit s))
         \<or> fcard (visited (crawl_step L F opts base_domain s)) = Suc (fcard (visited s))"
proof (cases "to_visit s")
  case Nil
  with assms show ?thesis by (simp add: loop_cond_def)
next
  case (Cons p rest)
  obtain cu cd where p: "p = (cu, cd)" by (cases p)
  show ?thesis
  proof (cases "cu |\<in>| visited s \<or> cd > depth opts")
    case True
    with Cons p show ?thesis by (auto simp: crawl_step_def)
  next
    case False
    then have "fcard (finsert cu (visited s)) = Suc (fcard (visited s))"
      by (simp add: fcard_finsert_disjoint)
    with False Cons p show ?thesis
      by (auto simp: crawl_step_def Let_def split: option.splits prod.splits)
  qed
qed

function crawl_loop :: "urllib \<Rightarrow> fetchers \<Rightarrow> options \<Rightarrow> string \<Rightarrow> crawl_state \<Rightarrow> crawl_state" where
  "crawl_loop L F opts base_domain s =
     (if loop_cond opts s then crawl_loop L F opts base_domain (crawl_step L F opts base_domain s)
      else s)"
  by pat_completeness auto
termination
proof (relation "measures [\<lambda>(L, F, opts, b, s). nat (max_pages opts - int (fcard (visited s))),
                           \<lambda>(L, F, opts, b, s). length (to_visit s)]")
  show "wf (measures [\<lambda>(L, F, opts, b, s). nat (max_pages opts - int (fcard (visited s))),
                      \<lambda>(L :: urllib, F :: fetchers, opts, b :: string, s). length (to_visit s)])"
    by simp
next
  fix L :: urllib and F :: fetchers and opts :: options and base_domain :: string
    and s :: crawl_state
  assume c: "loop_cond opts s"
  then have "int (fcard (visited s)) < max_pages opts" by (simp add: loop_cond_def)
  with crawl_step_measure [OF c, of L F base_domain]
  show "((L, F, opts, base_domain, crawl_step L F opts base_domain s),
         (L, F, opts, base_domain, s))
        \<in> measures [\<lambda>(L, F, opts, b, s). nat (max_pages opts - int (fcard (visited s))),
                    \<lambda>(L, F, opts, b, s). length (to_visit s)]"
    by auto
qed

declare crawl_loop.simps [simp del]

definition initial_state :: "string \<Rightarrow> crawl_state" where
  "initial_state seed =
     \<lparr>visited = {||}, to_visit = [(seed, 0)], all_pages = [], all_links = [],
      total_pages_crawled = 0, total_links_found = 0, files_found = [],
      fetch_log = [], warnings = [], requests = []\<rparr>"

definition crawl :: "urllib \<Rightarrow> fetchers \<Rightarrow> options \<Rightarrow> string \<Rightarrow> crawl_state option" where
  \<comment> \<open>the link-extraction mode up to the end of the loop; \<open>None\<close>: \<open>urlparse\<close> raised on
      the start URL, before the loop\<close>
  "crawl L F opts seed =
     (case urlparse L seed of
        None \<Rightarrow> None
      | Some parsed \<Rightarrow> Some (crawl_loop L F opts (pr_netloc parsed) (initial_state seed)))"

section \<open>Invariants of the crawl loop\<close>

definition crawl_inv :: "fetchers \<Rightarrow> options \<Rightarrow> crawl_state \<Rightarrow> bool" where
  \<comment> \<open>the fetch trace lists the visited set without repetition; page records and links
      come from pages whose fetch succeeded; a failed fetch has its warning\<close>
  "crawl_inv F opts s =
     (distinct (fetch_log s) \<and> set (fetch_log s) = fset (visited s)
      \<and> (\<forall>p\<in>set (all_pages s). fetch_page F (javascript opts) (pd_url p) \<noteq> None)
      \<and> (\<forall>l\<in>set (all_links s). fetch_page F (javascript opts) (found_on_page l) \<noteq> None)
      \<and> (\<forall>u\<in>set (fetch_log s).
            fetch_page F (javascript opts) u = None \<longrightarrow> u \<in> set (warnings s)))"

definition frontier_inv :: "urllib \<Rightarrow> options \<Rightarrow> string \<Rightarrow> crawl_state \<Rightarrow> bool" where
  \<comment> \<open>every queue entry is the start entry, or has a depth from 1 to the maximum and a
      URL whose path has no suffix\<close>
  "frontier_inv L opts seed s =
     (\<forall>(u, k)\<in>set (to_visit s).
        (u, k) = (seed, 0)
        \<or> (1 \<le> k \<and> k \<le> depth opts
            \<and> (\<exists>p. urlparse L u = Some p \<and> path_suffix (pr_path p) = [])))"

section \<open>Example inputs\<close>

definition example_link :: "string \<Rightarrow> string \<Rightarrow> link" where
  \<comment> \<open>a link record with the given \<open>url\<close> and \<open>link_type\<close>\<close>
  "example_link u t =
     \<lparr>url = u, link_text = [], domain = [], path = [], query = [], fragment = [],
      is_internal = False, is_subdomain = False, link_type = t, source = ''content'',
      original_href = u, found_on_page = []\<rparr>"

definition example_anchor :: "string \<Rightarrow> string \<Rightarrow> string \<Rightarrow> anchor" where
  "example_anchor h t s = \<lparr>a_href = Some h, a_text = t, a_source = s\<rparr>"

definition example_page :: response where
  "example_page =
     \<lparr>r_title = ''Home'',
      r_anchors =
        [example_anchor ''/about'' ''About'' ''navigation'',
         example_anchor ''https://other.com/x'' ''Other'' ''content'',
         example_anchor ''#frag'' ''Top'' ''content'',
         example_anchor ''mailto:a@b.com'' ''Mail'' ''footer'',
         example_anchor ''/doc.pdf'' ''Paper'' ''content'',
         example_anchor ''https://blog.site.com/x'' ''Blog'' ''content''],
      r_href_attrs = []\<rparr>"

definition page_two_texts :: response where
  \<comment> \<open>the same \<open>href\<close> twice, with different texts and regions\<close>
  "page_two_texts =
     \<lparr>r_title = [],
      r_anchors = [example_anchor ''/a'' ''First'' ''navigation'',
                   example_anchor ''/a'' ''Second'' ''footer''],
      r_href_attrs = []\<rparr>"

definition page_fragments :: response where
  \<comment> \<open>the same fragment-only \<open>href\<close> twice\<close>
  "page_fragments =
     \<lparr>r_title = [],
      r_anchors = [example_anchor ''#top'' ''Up'' ''content'',
                   example_anchor ''#top'' ''Top'' ''footer''],
      r_href_attrs = []\<rparr>"

definition page_two_texts_fallback :: response where
  \<comment> \<open>the same page read through elements without \<open>attrs\<close>: the first pass collects
      nothing and the fallback query supplies the \<open>href\<close> values\<close>
  "page_two_texts_fallback =
     \<lparr>r_title = [],
      r_anchors = [\<lparr>a_href = None, a_text = ''First'', a_source = ''navigation''\<rparr>,
                   \<lparr>a_href = None, a_text = ''Second'', a_source = ''footer''\<rparr>],
      r_href_attrs = [''/a'', ''/a'']\<rparr>"

definition page_fragments_fallback :: response where
  "page_fragments_fallback =
     \<lparr>r_title = [],
      r_anchors = [\<lparr>a_href = None, a_text = ''Up'', a_source = ''content''\<rparr>,
                   \<lparr>a_href = None, a_text = ''Top'', a_source = ''footer''\<rparr>],
      r_href_attrs = [''#top'', ''#top'']\<rparr>"

definition page_subdomain :: response where
  "page_subdomain =
     \<lparr>r_title = [],
      r_anchors = [example_anchor ''https://blog.site.com/x'' ''Blog'' ''content''],
      r_href_attrs = []\<rparr>"

definition example_web :: "string \<Rightarrow> response option" where
  \<comment> \<open>a site of two pages; every other fetch raises\<close>
  "example_web u =
     (if u = ''https://site.com/'' \<or> u = ''https://site.com/about'' then Some example_page
      else None)"

definition example_fetchers :: fetchers where
  "example_fetchers = \<lparr>stealthy_fetch = example_web, fetcher_get = example_web\<rparr>"


definition example_options :: "int \<Rightarrow> int \<Rightarrow> options" where
  \<comment> \<open>the defaults of the scrape command, with the given depth and page limit\<close>
  "example_options d m =
     \<lparr>depth = d, max_pages = m, javascript = False, internal_only = False,
      external_only = False, subdomains_only = False, include_subdomains = True,
      extensions = None, filter_types = None, unique_only = True\<rparr>"


section \<open>Domain relationship\<close>

text \<open>
  C2. The claim: the domain relationship is computed after stripping a leading
  \<open>www.\<close>, and only a leading one, from both sides. The code calls
  \<open>replace('www.', '')\<close>, which removes every occurrence: for the domain
  \<open>mywww.example.com\<close> and the base domain \<open>myexample.com\<close> both cleaned strings are
  \<open>myexample.com\<close>, so \<open>is_same_or_subdomain\<close> answers True (same), although the two
  names stripped of a leading \<open>www.\<close> differ and neither ends with a dot and the other.
\<close>

theorem C2_www_removed_everywhere:
  "replace ''www.'' [] ''mywww.example.com'' = ''myexample.com''
   \<and> is_same_or_subdomain ''mywww.example.com'' ''myexample.com''
   \<and> \<not> is_subdomain_of ''mywww.example.com'' ''myexample.com''"
  by code_simp

section \<open>Link type classification\<close>

text \<open>
  C3, as amended. For every URL that parses, with \<open>p\<close> the lowercased path and \<open>ext\<close>
  its suffix: an extension in one of the six sets decides the type, before any other
  rule; with an extension in none of the sets (or none at all), a path containing
  \<open>api\<close> gives \<open>api\<close>; otherwise, for a URL without a query string, the type is
  \<open>page\<close> when there is no extension and \<open>other\<close> when there is one.
\<close>

theorem C3_get_link_type:
  assumes "urlparse L u = Some parsed"
  shows "let p = lower (pr_path parsed); ext = lower (path_suffix p) in
     (ext \<in> image_extensions \<longrightarrow> get_link_type L u = Some ''image'') \<and>
     (ext \<in> doc_extensions \<longrightarrow> get_link_type L u = Some ''document'') \<and>
     (ext \<in> video_extensions \<longrightarrow> get_link_type L u = Some ''video'') \<and>
     (ext \<in> audio_extensions \<longrightarrow> get_link_type L u = Some ''audio'') \<and>
     (ext \<in> archive_extensions \<longrightarrow> get_link_type L u = Some ''archive'') \<and>
     (ext \<in> code_extensions \<longrightarrow> get_link_type L u = Some ''code'') \<and>
     (ext \<notin> image_extensions \<union> doc_extensions \<union> video_extensions \<union> audio_extensions
              \<union> archive_extensions \<union> code_extensions \<longrightarrow>
        (contains ''api'' p \<longrightarrow> get_link_type L u = Some ''api'') \<and>
        (\<not> contains ''api'' p \<and> pr_query parsed = [] \<longrightarrow>
           get_link_type L u = Some (if ext = [] then ''page'' else ''other'')))"
  using assms
  by (auto simp: get_link_type_def Let_def image_extensions_def doc_extensions_def
       video_extensions_def audio_extensions_def archive_extensions_def code_extensions_def)

text \<open>The theorem at \<open>https://x.com/a.PDF\<close>: the upper-case extension is a document.\<close>

theorem C3_get_link_type_witness:
  "urlparse py_urllib ''https://x.com/a.PDF''
     = Some \<lparr>pr_scheme = ''https'', pr_netloc = ''x.com'', pr_path = ''/a.PDF'',
              pr_params = [], pr_query = [], pr_fragment = []\<rparr>
   \<and> lower (path_suffix (lower ''/a.PDF'')) \<in> doc_extensions
   \<and> get_link_type py_urllib ''https://x.com/a.PDF'' = Some ''document''"
proof -
  have h: "urlparse py_urllib ''https://x.com/a.PDF''
     = Some \<lparr>pr_scheme = ''https'', pr_netloc = ''x.com'', pr_path = ''/a.PDF'',
              pr_params = [], pr_query = [], pr_fragment = []\<rparr>"
    by code_simp
  have e: "lower (path_suffix (lower ''/a.PDF'')) \<in> doc_extensions"
    by code_simp
  from C3_get_link_type [OF h] e show ?thesis using h by (simp add: Let_def)
qed

text \<open>
  The claim as stated fails: the extension \<open>.xyz\<close> is in none of the sets, yet the URL
  is classified \<open>api\<close>, not \<open>other\<close>, because its path contains \<open>api\<close>; and a URL
  with the query string \<open>q=1\<close> and no extension is classified \<open>page\<close>, not \<open>api\<close>,
  because the code looks for a question mark inside the query.
\<close>

theorem C3_get_link_type_counterexample:
  "get_link_type py_urllib ''https://x.com/api/data.xyz'' = Some ''api''
   \<and> get_link_type py_urllib ''https://x.com/search?q=1'' = Some ''page''"
  by code_simp

section \<open>The filters\<close>

lemma foldl_keep_if:
  "foldl (\<lambda>acc x. if P x then acc @ [x] else acc) acc xs = acc @ filter P xs"
  by (induction xs arbitrary: acc) auto

lemma foldl_keep_if_elif:
  "foldl (\<lambda>acc x. if P x then acc @ [x] else if Q x then acc @ [x] else acc) acc xs
     = acc @ filter (\<lambda>x. P x \<or> Q x) xs"
  by (induction xs arbitrary: acc) auto

lemma filter_by_extensions_eq:
  "filter_by_extensions links exts =
     filter (\<lambda>l. list_ex (\<lambda>ext. endswith (lower (url l)) (''.'' @ ext)) exts) links"
  by (simp add: filter_by_extensions_def foldl_keep_if)

lemma filter_by_types_eq:
  "filter_by_types links tfs =
     filter (\<lambda>l. link_type l \<in> expand_filters tfs
                 \<or> list_ex (\<lambda>t. contains (''.'' @ t) (lower (url l))) tfs) links"
  by (simp add: filter_by_types_def Let_def foldl_keep_if_elif)

lemma expand_images: "expand_filters [''images''] = {''image''}"
  by (simp add: expand_filters_def type_groups_def)

lemma count_list_filter:
  "count_list (filter P xs) x = (if P x then count_list xs x else 0)"
  by (induction xs) auto

text \<open>
  C9. The extension filter \<open>["pdf"]\<close> followed by the type filter \<open>["images"]\<close> keeps
  exactly the links that pass both tests, which are the links that each filter alone
  keeps, in the order of the input.
\<close>

theorem C9_extension_then_type_filter:
  "filter_by_types (filter_by_extensions links [''pdf'']) [''images'']
     = filter (\<lambda>l. endswith (lower (url l)) ''.pdf''
                    \<and> (link_type l = ''image'' \<or> contains ''.images'' (lower (url l)))) links
   \<and> filter_by_types (filter_by_extensions links [''pdf'']) [''images'']
     = filter (\<lambda>l. l \<in> set (filter_by_extensions links [''pdf''])
                    \<and> l \<in> set (filter_by_types links [''images''])) links
   \<and> subseq (filter_by_types (filter_by_extensions links [''pdf'']) [''images'']) links"
proof -
  have a: "filter_by_types (filter_by_extensions links [''pdf'']) [''images'']
     = filter (\<lambda>l. endswith (lower (url l)) ''.pdf''
                    \<and> (link_type l = ''image'' \<or> contains ''.images'' (lower (url l)))) links"
    by (simp add: filter_by_types_eq filter_by_extensions_eq expand_images conj_commute)
  have b: "filter (\<lambda>l. endswith (lower (url l)) ''.pdf''
                    \<and> (link_type l = ''image'' \<or> contains ''.images'' (lower (url l)))) links
     = filter (\<lambda>l. l \<in> set (filter_by_extensions links [''pdf''])
                    \<and> l \<in> set (filter_by_types links [''images''])) links"
    by (rule filter_cong) (auto simp: filter_by_types_eq filter_by_extensions_eq expand_images)
  from a b show ?thesis by simp
qed

text \<open>Three links, of which only the second passes both filters.\<close>

theorem C9_extension_then_type_filter_witness:
  "filter_by_types (filter_by_extensions
      [example_link ''https://x.com/doc.pdf'' ''document'',
       example_link ''https://x.com/pics.images/scan.PDF'' ''document'',
       example_link ''https://x.com/a.png'' ''image''] [''pdf'']) [''images'']
   = [example_link ''https://x.com/pics.images/scan.PDF'' ''document'']"
proof -
  have "filter (\<lambda>l. endswith (lower (url l)) ''.pdf''
                    \<and> (link_type l = ''image'' \<or> contains ''.images'' (lower (url l))))
      [example_link ''https://x.com/doc.pdf'' ''document'',
       example_link ''https://x.com/pics.images/scan.PDF'' ''document'',
       example_link ''https://x.com/a.png'' ''image'']
    = [example_link ''https://x.com/pics.images/scan.PDF'' ''document'']"
    by code_simp
  with C9_extension_then_type_filter
         [of "[example_link ''https://x.com/doc.pdf'' ''document'',
               example_link ''https://x.com/pics.images/scan.PDF'' ''document'',
               example_link ''https://x.com/a.png'' ''image'']"]
  show ?thesis by simp
qed

text \<open>
  C10. \<open>filter_by_types\<close> returns a subsequence of its input: the links whose type is in
  the expanded filter set or whose URL contains a dot and a filter token. No link occurs
  more often in the output than in the input, and a link that passes both tests occurs
  exactly as often as in the input, so it is emitted once for each of its occurrences.
\<close>

theorem C10_filter_by_types_subsequence:
  "subseq (filter_by_types links type_filters) links
   \<and> filter_by_types links type_filters
       = filter (\<lambda>l. link_type l \<in> expand_filters type_filters
                      \<or> list_ex (\<lambda>t. contains (''.'' @ t) (lower (url l))) type_filters) links
   \<and> (\<forall>l. count_list (filter_by_types links type_filters) l \<le> count_list links l)
   \<and> (\<forall>l. link_type l \<in> expand_filters type_filters
            \<and> list_ex (\<lambda>t. contains (''.'' @ t) (lower (url l))) type_filters
          \<longrightarrow> count_list (filter_by_types links type_filters) l = count_list links l)"
  by (simp add: filter_by_types_eq count_list_filter)

text \<open>A link of type \<open>image\<close> whose URL also contains \<open>.images\<close> comes out once.\<close>

theorem C10_filter_by_types_subsequence_witness:
  "link_type (example_link ''https://x.com/pics.images/a.png'' ''image'')
     \<in> expand_filters [''images'']
   \<and> list_ex (\<lambda>t. contains (''.'' @ t)
                (lower (url (example_link ''https://x.com/pics.images/a.png'' ''image''))))
        [''images'']
   \<and> count_list (filter_by_types [example_link ''https://x.com/pics.images/a.png'' ''image'',
         example_link ''https://x.com/doc.pdf'' ''document''] [''images''])
        (example_link ''https://x.com/pics.images/a.png'' ''image'') = 1"
proof -
  let ?l = "example_link ''https://x.com/pics.images/a.png'' ''image''"
  let ?m = "example_link ''https://x.com/doc.pdf'' ''document''"
  have a: "link_type ?l \<in> expand_filters [''images'']" by code_simp
  have b: "list_ex (\<lambda>t. contains (''.'' @ t) (lower (url ?l))) [''images'']" by code_simp
  have c: "count_list [?l, ?m] ?l = 1" by code_simp
  from C10_filter_by_types_subsequence [of "[?l, ?m]" "[''images'']"] a b c
  show ?thesis by simp
qed

section \<open>Link extraction\<close>

subsection \<open>The insertion-ordered dictionary\<close>

lemma dict_set_keys:
  "map fst (dict_set k v d) = (if k \<in> set (map fst d) then map fst d else map fst d @ [k])"
  by (induction d) force+

lemma dict_set_distinct: "distinct (map fst d) \<Longrightarrow> distinct (map fst (dict_set k v d))"
  by (simp add: dict_set_keys)

lemma dict_set_map_of: "map_of (dict_set k v d) = (map_of d)(k \<mapsto> v)"
  by (induction d) (auto simp: fun_eq_iff)

lemma dict_set_not_Nil: "dict_set k v d \<noteq> []"
  by (cases d) (auto split: if_splits)

lemma first_pass_snoc:
  "first_pass (elems @ [e]) =
     (case anchor_key e of None \<Rightarrow> first_pass elems
      | Some k \<Rightarrow> dict_set k (strip (a_text e), a_source e) (first_pass elems))"
  by (simp add: first_pass_def anchor_key_def split: option.splits)

lemma first_pass_Nil [simp]: "first_pass [] = []"
  by (simp add: first_pass_def)

lemma first_pass_distinct: "distinct (map fst (first_pass elems))"
proof (induction elems rule: rev_induct)
  case Nil
  show ?case by simp
next
  case (snoc e elems)
  then show ?case
    by (cases "anchor_key e") (simp_all add: first_pass_snoc dict_set_distinct)
qed

text \<open>The value stored under a key is the one of the last anchor with that key.\<close>

lemma first_pass_map_of:
  "map_of (first_pass elems) k =
     (case rev (filter (\<lambda>a. anchor_key a = Some k) elems) of
        [] \<Rightarrow> None
      | a # _ \<Rightarrow> Some (strip (a_text a), a_source a))"
proof (induction elems rule: rev_induct)
  case Nil
  show ?case by simp
next
  case (snoc e elems)
  show ?case
  proof (cases "anchor_key e")
    case None
    with snoc show ?thesis by (simp add: first_pass_snoc)
  next
    case (Some k')
    show ?thesis
    proof (cases "k' = k")
      case True
      with Some show ?thesis by (simp add: first_pass_snoc dict_set_map_of)
    next
      case False
      with Some snoc show ?thesis by (simp add: first_pass_snoc dict_set_map_of)
    qed
  qed
qed

lemma first_pass_Nil_iff:
  "first_pass elems = [] \<longleftrightarrow> (\<forall>a\<in>set elems. anchor_key a = None)"
proof (induction elems rule: rev_induct)
  case Nil
  show ?case by simp
next
  case (snoc e elems)
  then show ?case
    by (cases "anchor_key e") (simp_all add: first_pass_snoc dict_set_not_Nil)
qed

lemma fallback_pass_snoc:
  "fallback_pass (hs @ [h]) =
     (if h = [] then fallback_pass hs
      else dict_set (strip h) ([], ''unknown'') (fallback_pass hs))"
  by (simp add: fallback_pass_def)

lemma fallback_pass_Nil [simp]: "fallback_pass [] = []"
  by (simp add: fallback_pass_def)

lemma fallback_pass_distinct: "distinct (map fst (fallback_pass hs))"
proof (induction hs rule: rev_induct)
  case Nil
  show ?case by simp
next
  case (snoc h hs)
  then show ?case by (simp add: fallback_pass_snoc dict_set_distinct)
qed

lemma fallback_pass_map_of:
  "map_of (fallback_pass hs) k =
     (if \<exists>h\<in>set hs. h \<noteq> [] \<and> strip h = k then Some ([], ''unknown'') else None)"
proof (induction hs rule: rev_induct)
  case Nil
  show ?case by simp
next
  case (snoc h hs)
  show ?case
  proof (cases "h = []")
    case True
    with snoc show ?thesis by (simp add: fallback_pass_snoc)
  next
    case False
    with snoc show ?thesis by (simp add: fallback_pass_snoc dict_set_map_of)
  qed
qed

lemma collect_hrefs_distinct: "distinct (map fst (collect_hrefs r))"
  by (simp add: collect_hrefs_def Let_def first_pass_distinct fallback_pass_distinct)

subsection \<open>The loop that builds the links\<close>

lemma process_href_Emit:
  assumes "process_href L cu b incl (href, txt, src) = Emit l"
  shows "href \<noteq> [] \<and> \<not> startswith href ''#'' \<and> \<not> startswith href ''mailto:''
     \<and> \<not> startswith href ''javascript:''
     \<and> urljoin L cu href = Some (url l)
     \<and> (\<exists>p. urlparse L (url l) = Some p
            \<and> (pr_scheme p = ''http'' \<or> pr_scheme p = ''https'')
            \<and> domain l = pr_netloc p \<and> path l = pr_path p)
     \<and> original_href l = href \<and> link_text l = txt \<and> source l = src
     \<and> found_on_page l = cu
     \<and> is_subdomain l = is_subdomain_of (domain l) b
     \<and> is_internal l = (domain l = b \<or> domain l = [] \<or> is_same_or_subdomain (domain l) b
                         \<or> (incl \<and> is_subdomain_of (domain l) b))
     \<and> get_link_type L (url l) = Some (link_type l)"
  using assms
  by (auto simp: process_href_def Let_def split: if_splits option.splits)

lemma process_hrefs_set:
  "l \<in> set (process_hrefs L cu b incl kvs acc)
   \<Longrightarrow> l \<in> set acc \<or> (\<exists>e\<in>set kvs. process_href L cu b incl e = Emit l)"
proof (induction kvs arbitrary: acc)
  case Nil
  then show ?case by simp
next
  case (Cons e kvs)
  show ?case
  proof (cases "process_href L cu b incl e")
    case Skip
    with Cons show ?thesis by auto
  next
    case Raised
    with Cons show ?thesis by auto
  next
    case (Emit l')
    with Cons.prems have "l \<in> set (process_hrefs L cu b incl kvs (acc @ [l']))" by simp
    from Cons.IH [OF this] Emit show ?thesis by auto
  qed
qed

lemma process_hrefs_keys:
  "\<exists>ks. map original_href (process_hrefs L cu b incl kvs acc) = map original_href acc @ ks
        \<and> subseq ks (map fst kvs)"
proof (induction kvs arbitrary: acc)
  case Nil
  show ?case by simp
next
  case (Cons e kvs)
  obtain href tx sr where e: "e = (href, tx, sr)" by (cases e)
  show ?case
  proof (cases "process_href L cu b incl e")
    case Skip
    with Cons [of acc] show ?thesis by auto
  next
    case Raised
    then show ?thesis by auto
  next
    case (Emit l')
    with e have h: "original_href l' = href" by (auto dest: process_href_Emit)
    from Cons [of "acc @ [l']"] obtain ks where
      "map original_href (process_hrefs L cu b incl kvs (acc @ [l'])) = map original_href (acc @ [l']) @ ks"
      and "subseq ks (map fst kvs)" by blast
    with Emit h e show ?thesis by (intro exI [of _ "href # ks"]) simp
  qed
qed

lemma subseq_distinct: "subseq xs ys \<Longrightarrow> distinct ys \<Longrightarrow> distinct xs"
  using subseqs_distinctD [of xs ys] by (simp add: set_subseqs_eq)

lemma extract_link_entry:
  assumes "l \<in> set (extract_links_from_page L r cu b incl)"
  shows "(original_href l, link_text l, source l) \<in> set (collect_hrefs r)
         \<and> process_href L cu b incl (original_href l, link_text l, source l) = Emit l"
proof -
  from assms process_hrefs_set [of l L cu b incl "collect_hrefs r" "[]"]
  obtain e where e: "e \<in> set (collect_hrefs r)" "process_href L cu b incl e = Emit l"
    by (auto simp: extract_links_from_page_def)
  obtain h tx sr where "e = (h, tx, sr)" by (cases e)
  with e process_href_Emit [of L cu b incl h tx sr l] show ?thesis by simp
qed

lemma extract_found_on_page:
  assumes "l \<in> set (extract_links_from_page L r cu b incl)"
  shows "found_on_page l = cu"
  using extract_link_entry [OF assms]
    process_href_Emit [of L cu b incl "original_href l" "link_text l" "source l" l]
  by blast

subsection \<open>Stripping keeps a skipped prefix\<close>

lemma strip_keeps_prefix:
  assumes "prefix p h" and "p \<noteq> []" and "\<not> is_space (hd p)" and "\<not> is_space (last p)"
  shows "prefix p (strip h)"
proof -
  from assms(1) obtain t where h: "h = p @ t" by (auto simp: prefix_def)
  from assms(2,3) h have a: "dropWhile is_space h = h"
    by (simp add: dropWhile_eq_self_iff)
  from assms(2,4) have b: "dropWhile is_space (rev p) = rev p"
    by (simp add: dropWhile_eq_self_iff hd_rev)
  have "\<exists>z. dropWhile is_space (rev t @ rev p) = z @ rev p"
    using b by (cases "\<forall>x\<in>set (rev t). is_space x") (auto simp: dropWhile_append)
  then obtain z where "dropWhile is_space (rev h) = z @ rev p" using h by auto
  with a show ?thesis by (simp add: strip_def)
qed

lemma strip_keeps_skip_prefix:
  assumes "startswith h ''#'' \<or> startswith h ''mailto:'' \<or> startswith h ''javascript:''"
  shows "startswith (strip h) ''#'' \<or> startswith (strip h) ''mailto:''
         \<or> startswith (strip h) ''javascript:''"
proof -
  have "\<not> is_space CHR ''#''" "\<not> is_space CHR '':''" "\<not> is_space CHR ''m''" "\<not> is_space CHR ''j''"
    by code_simp+
  with assms show ?thesis
    unfolding startswith_def by (auto intro!: strip_keeps_prefix)
qed

subsection \<open>The claims about extraction\<close>

text \<open>
  C1. The claim: \<open>is_internal\<close> holds exactly when the link's domain is the base domain
  (or empty), or when \<open>include_subdomains\<close> is set and the domain is a subdomain of the
  base domain; without \<open>include_subdomains\<close> a proper subdomain is not internal. The code
  sets \<open>is_internal\<close> whenever \<open>is_same_or_subdomain\<close> holds, before it looks at the
  flag: with \<open>include_subdomains\<close> False and the base domain \<open>site.com\<close>, the link to
  \<open>https://blog.site.com/x\<close> is a subdomain link and is internal.
\<close>

theorem C1_subdomain_internal_without_flag:
  "map (\<lambda>l. (domain l, is_internal l, is_subdomain l))
     (extract_links_from_page py_urllib page_subdomain ''https://site.com/'' ''site.com'' False)
   = [(''blog.site.com'', True, True)]"
  by code_simp

lemma extract_distinct_last_wins:
  "distinct (map original_href (extract_links_from_page L r cu b incl))
   \<and> (\<forall>l\<in>set (extract_links_from_page L r cu b incl).
        let ms = filter (\<lambda>a. anchor_key a = Some (original_href l)) (r_anchors r)
        in if ms = [] then link_text l = [] \<and> source l = ''unknown''
           else link_text l = strip (a_text (last ms)) \<and> source l = a_source (last ms))"
proof -
  obtain ks where ks: "map original_href (extract_links_from_page L r cu b incl) = ks"
      "subseq ks (map fst (collect_hrefs r))"
    using process_hrefs_keys [of L cu b incl "collect_hrefs r" "[]"]
    by (auto simp: extract_links_from_page_def)
  have d: "distinct (map original_href (extract_links_from_page L r cu b incl))"
    using ks collect_hrefs_distinct [of r] subseq_distinct by metis
  have t: "let ms = filter (\<lambda>a. anchor_key a = Some (original_href l)) (r_anchors r)
        in if ms = [] then link_text l = [] \<and> source l = ''unknown''
           else link_text l = strip (a_text (last ms)) \<and> source l = a_source (last ms)"
    if "l \<in> set (extract_links_from_page L r cu b incl)" for l
  proof -
    let ?k = "original_href l"
    let ?ms = "filter (\<lambda>a. anchor_key a = Some ?k) (r_anchors r)"
    from extract_link_entry [OF that]
    have m: "map_of (collect_hrefs r) ?k = Some (link_text l, source l)"
      using collect_hrefs_distinct by simp
    show ?thesis
    proof (cases "first_pass (r_anchors r) = []")
      case True
      then have "?ms = []" by (auto simp: first_pass_Nil_iff filter_empty_conv)
      moreover from True m have "link_text l = [] \<and> source l = ''unknown''"
        by (auto simp: collect_hrefs_def fallback_pass_map_of split: if_splits)
      ultimately show ?thesis by (simp add: Let_def)
    next
      case False
      with m have f: "map_of (first_pass (r_anchors r)) ?k = Some (link_text l, source l)"
        by (simp add: collect_hrefs_def)
      then have ne: "?ms \<noteq> []" by (auto simp: first_pass_map_of)
      then have "rev ?ms = last ?ms # rev (butlast ?ms)"
        by (metis append_butlast_last_id rev.simps(2) rev_append rev_rev_ident append_Nil rev.simps(1) append_Cons)
      with f have "link_text l = strip (a_text (last ?ms)) \<and> source l = a_source (last ?ms)"
        by (simp add: first_pass_map_of)
      with ne show ?thesis by (simp add: Let_def)
    qed
  qed
  from d t show ?thesis by blast
qed

lemma process_hrefs_no_raise:
  "\<forall>e\<in>set kvs. process_href L cu b incl e \<noteq> Raised
   \<Longrightarrow> process_hrefs L cu b incl kvs acc
       = acc @ concat (map (\<lambda>e. emitted (process_href L cu b incl e)) kvs)"
proof (induction kvs arbitrary: acc)
  case Nil
  show ?case by simp
next
  case (Cons e kvs)
  then show ?case
    by (cases "process_href L cu b incl e") (simp_all add: emitted_def)
qed

lemma emitted_key:
  "l \<in> set (emitted (process_href L cu b incl e)) \<Longrightarrow> original_href l = fst e"
proof -
  assume a: "l \<in> set (emitted (process_href L cu b incl e))"
  obtain k tx sr where e: "e = (k, tx, sr)" by (cases e)
  from a have "process_href L cu b incl e = Emit l"
    by (cases "process_href L cu b incl e") (simp_all add: emitted_def)
  with e process_href_Emit [of L cu b incl k tx sr l] show ?thesis by simp
qed

lemma filter_emitted_other:
  "k \<notin> fst ` set kvs
   \<Longrightarrow> filter (\<lambda>l. original_href l = k)
         (concat (map (\<lambda>e. emitted (process_href L cu b incl e)) kvs)) = []"
  by (auto simp: filter_empty_conv dest: emitted_key)

lemma filter_emitted_key:
  assumes "distinct (map fst kvs)" and "e \<in> set kvs"
  shows "filter (\<lambda>l. original_href l = fst e)
           (concat (map (\<lambda>e. emitted (process_href L cu b incl e)) kvs))
         = emitted (process_href L cu b incl e)"
  using assms
proof (induction kvs)
  case Nil
  then show ?case by simp
next
  case (Cons x kvs)
  have own: "filter (\<lambda>l. original_href l = fst x) (emitted (process_href L cu b incl x))
      = emitted (process_href L cu b incl x)" for x
    by (auto simp: filter_id_conv dest: emitted_key)
  show ?case
  proof (cases "e = x")
    case True
    from Cons.prems(1) have "fst x \<notin> fst ` set kvs" by simp
    from filter_emitted_other [OF this] True own [of x] show ?thesis by simp
  next
    case False
    with Cons.prems have in_rest: "e \<in> set kvs" and d: "distinct (map fst kvs)" by auto
    from Cons.prems(1) in_rest have ne: "fst x \<noteq> fst e" by force
    then have "filter (\<lambda>l. original_href l = fst e) (emitted (process_href L cu b incl x)) = []"
      by (auto simp: filter_empty_conv dest: emitted_key)
    with Cons.IH [OF d in_rest] show ?thesis by simp
  qed
qed

lemma get_link_type_Some: "urlparse L u = Some p \<Longrightarrow> \<exists>t. get_link_type L u = Some t"
  by (simp add: get_link_type_def Let_def)

lemma process_href_emits:
  assumes "k \<noteq> []" and "\<not> startswith k ''#''" and "\<not> startswith k ''mailto:''"
    and "\<not> startswith k ''javascript:''"
    and "urljoin L cu k = Some u" and "urlparse L u = Some p"
    and "pr_scheme p = ''http'' \<or> pr_scheme p = ''https''"
  shows "\<exists>l. process_href L cu b incl (k, tx, sr) = Emit l"
proof -
  from get_link_type_Some [OF assms(6)] obtain t where "get_link_type L u = Some t" by blast
  with assms show ?thesis by (auto simp: process_href_def Let_def)
qed

lemma process_href_not_Raised:
  assumes "k = [] \<or> startswith k ''#'' \<or> startswith k ''mailto:''
           \<or> startswith k ''javascript:''
           \<or> (\<exists>u p. urljoin L cu k = Some u \<and> urlparse L u = Some p)"
  shows "process_href L cu b incl (k, tx, sr) \<noteq> Raised"
proof (cases "k = [] \<or> startswith k ''#'' \<or> startswith k ''mailto:''
           \<or> startswith k ''javascript:''")
  case True
  then show ?thesis by (auto simp: process_href_def)
next
  case False
  with assms obtain u p where u: "urljoin L cu k = Some u" "urlparse L u = Some p" by blast
  from get_link_type_Some [OF u(2)] obtain t where "get_link_type L u = Some t" by blast
  with False u show ?thesis by (auto simp: process_href_def Let_def)
qed

lemma collect_hrefs_keys:
  "set (map fst (collect_hrefs r)) =
     (if \<exists>a\<in>set (r_anchors r). anchor_key a \<noteq> None
      then {k. \<exists>a\<in>set (r_anchors r). anchor_key a = Some k}
      else {k. \<exists>h\<in>set (r_href_attrs r). h \<noteq> [] \<and> strip h = k})"
proof -
  have dom: "set (map fst kvs) = {k. map_of kvs k \<noteq> None}" for kvs :: "(string \<times> string \<times> string) list"
    by (auto simp: map_of_eq_None_iff)
  show ?thesis
  proof (cases "first_pass (r_anchors r) = []")
    case True
    then have "\<not> (\<exists>a\<in>set (r_anchors r). anchor_key a \<noteq> None)"
      by (simp add: first_pass_Nil_iff)
    with True show ?thesis
      unfolding dom by (auto simp: collect_hrefs_def fallback_pass_map_of split: if_splits)
  next
    case False
    then have ex: "\<exists>a\<in>set (r_anchors r). anchor_key a \<noteq> None"
      by (simp add: first_pass_Nil_iff)
    have "map_of (first_pass (r_anchors r)) k \<noteq> None
        \<longleftrightarrow> (\<exists>a\<in>set (r_anchors r). anchor_key a = Some k)" for k
    proof -
      have "filter (\<lambda>a. anchor_key a = Some k) (r_anchors r) \<noteq> []
          \<longleftrightarrow> (\<exists>a\<in>set (r_anchors r). anchor_key a = Some k)"
        by (simp add: filter_empty_conv)
      then show ?thesis
        by (cases "rev (filter (\<lambda>a. anchor_key a = Some k) (r_anchors r))")
           (simp_all add: first_pass_map_of)
    qed
    with False ex show ?thesis
      unfolding dom by (simp add: collect_hrefs_def)
  qed
qed

lemma extract_exactly_one:
  assumes nr: "\<forall>k\<in>set (map fst (collect_hrefs r)).
            k = [] \<or> startswith k ''#'' \<or> startswith k ''mailto:''
            \<or> startswith k ''javascript:''
            \<or> (\<exists>u p. urljoin L cu k = Some u \<and> urlparse L u = Some p)"
    and k: "k \<in> set (map fst (collect_hrefs r))"
    and ok: "k \<noteq> []" "\<not> startswith k ''#''" "\<not> startswith k ''mailto:''"
      "\<not> startswith k ''javascript:''"
    and u: "urljoin L cu k = Some u" "urlparse L u = Some p"
      "pr_scheme p = ''http'' \<or> pr_scheme p = ''https''"
  shows "length (filter (\<lambda>l. original_href l = k)
           (extract_links_from_page L r cu b incl)) = 1"
proof -
  have "\<forall>e\<in>set (collect_hrefs r). process_href L cu b incl e \<noteq> Raised"
  proof
    fix e assume e: "e \<in> set (collect_hrefs r)"
    obtain k' tx sr where e': "e = (k', tx, sr)" by (cases e)
    with e have "k' \<in> set (map fst (collect_hrefs r))" by force
    with nr have "k' = [] \<or> startswith k' ''#'' \<or> startswith k' ''mailto:''
            \<or> startswith k' ''javascript:''
            \<or> (\<exists>u p. urljoin L cu k' = Some u \<and> urlparse L u = Some p)" by blast
    from process_href_not_Raised [OF this] e'
    show "process_href L cu b incl e \<noteq> Raised" by simp
  qed
  from process_hrefs_no_raise [OF this, of "[]"]
  have out: "extract_links_from_page L r cu b incl
      = concat (map (\<lambda>e. emitted (process_href L cu b incl e)) (collect_hrefs r))"
    by (simp add: extract_links_from_page_def)
  from k obtain e where e: "e \<in> set (collect_hrefs r)" "fst e = k" by auto
  obtain tx sr where e': "e = (k, tx, sr)" using e(2) by (cases e) auto
  from process_href_emits [OF ok u, of b incl tx sr] obtain l
    where "process_href L cu b incl (k, tx, sr) = Emit l" by blast
  with e' have "emitted (process_href L cu b incl e) = [l]" by (simp add: emitted_def)
  with filter_emitted_key [OF collect_hrefs_distinct e(1), of L cu b incl] e(2) out
  show ?thesis by simp
qed

text \<open>
  C4, as amended. The links of one page have pairwise different \<open>original_href\<close>
  values, so an \<open>href\<close> that occurs more than once yields at most one link. When some
  anchor has this stripped \<open>href\<close> as its key (the elements expose \<open>attrs\<close>), the link
  carries the stripped text and the region of the last such anchor; when no anchor has it
  (the elements have no \<open>attrs\<close>, and the fallback query supplies the \<open>href\<close> values),
  the text is empty and the source is \<open>unknown\<close>. The keys of the dictionary are the
  keys of the anchors, or the stripped \<open>href\<close> texts of the fallback query when no
  anchor has a key. If no call of \<open>urljoin\<close> or \<open>urlparse\<close> raises on a key of the
  page, then every key that is not empty, has none of the three skipped prefixes and
  resolves to a URL of scheme \<open>http\<close> or \<open>https\<close> has exactly one link.
\<close>

theorem C4_one_link_per_href:
  "distinct (map original_href (extract_links_from_page L r cu b incl))
   \<and> (\<forall>l\<in>set (extract_links_from_page L r cu b incl).
        let ms = filter (\<lambda>a. anchor_key a = Some (original_href l)) (r_anchors r)
        in if ms = [] then link_text l = [] \<and> source l = ''unknown''
           else link_text l = strip (a_text (last ms)) \<and> source l = a_source (last ms))
   \<and> set (map fst (collect_hrefs r)) =
        (if \<exists>a\<in>set (r_anchors r). anchor_key a \<noteq> None
         then {k. \<exists>a\<in>set (r_anchors r). anchor_key a = Some k}
         else {k. \<exists>h\<in>set (r_href_attrs r). h \<noteq> [] \<and> strip h = k})
   \<and> ((\<forall>k\<in>set (map fst (collect_hrefs r)).
          k = [] \<or> startswith k ''#'' \<or> startswith k ''mailto:''
          \<or> startswith k ''javascript:''
          \<or> (\<exists>u p. urljoin L cu k = Some u \<and> urlparse L u = Some p))
        \<longrightarrow> (\<forall>k\<in>set (map fst (collect_hrefs r)).
               k \<noteq> [] \<and> \<not> startswith k ''#'' \<and> \<not> startswith k ''mailto:''
               \<and> \<not> startswith k ''javascript:''
               \<and> (\<exists>u p. urljoin L cu k = Some u \<and> urlparse L u = Some p
                      \<and> (pr_scheme p = ''http'' \<or> pr_scheme p = ''https''))
               \<longrightarrow> length (filter (\<lambda>l. original_href l = k)
                            (extract_links_from_page L r cu b incl)) = 1))"
proof -
  have one: "distinct (map original_href (extract_links_from_page L r cu b incl))
   \<and> (\<forall>l\<in>set (extract_links_from_page L r cu b incl).
        let ms = filter (\<lambda>a. anchor_key a = Some (original_href l)) (r_anchors r)
        in if ms = [] then link_text l = [] \<and> source l = ''unknown''
           else link_text l = strip (a_text (last ms)) \<and> source l = a_source (last ms))"
    by (rule extract_distinct_last_wins)
  have keys: "set (map fst (collect_hrefs r)) =
        (if \<exists>a\<in>set (r_anchors r). anchor_key a \<noteq> None
         then {k. \<exists>a\<in>set (r_anchors r). anchor_key a = Some k}
         else {k. \<exists>h\<in>set (r_href_attrs r). h \<noteq> [] \<and> strip h = k})"
    by (rule collect_hrefs_keys)
  have ex: "length (filter (\<lambda>l. original_href l = k)
                            (extract_links_from_page L r cu b incl)) = 1"
    if nr: "\<forall>k\<in>set (map fst (collect_hrefs r)).
          k = [] \<or> startswith k ''#'' \<or> startswith k ''mailto:''
          \<or> startswith k ''javascript:''
          \<or> (\<exists>u p. urljoin L cu k = Some u \<and> urlparse L u = Some p)"
      and k: "k \<in> set (map fst (collect_hrefs r))"
      and ok: "k \<noteq> [] \<and> \<not> startswith k ''#'' \<and> \<not> startswith k ''mailto:''
               \<and> \<not> startswith k ''javascript:''
               \<and> (\<exists>u p. urljoin L cu k = Some u \<and> urlparse L u = Some p
                      \<and> (pr_scheme p = ''http'' \<or> pr_scheme p = ''https''))" for k
  proof -
    from ok obtain u p where u: "urljoin L cu k = Some u" "urlparse L u = Some p"
        "pr_scheme p = ''http'' \<or> pr_scheme p = ''https''" by blast
    from ok have "k \<noteq> []" "\<not> startswith k ''#''" "\<not> startswith k ''mailto:''"
      "\<not> startswith k ''javascript:''" by simp_all
    from extract_exactly_one [OF nr k this u] show ?thesis .
  qed
  from one keys ex show ?thesis by blast
qed

text \<open>
  The \<open>href\<close> \<open>/a\<close> occurs twice with the texts "First" and "Second". Read through
  elements with \<open>attrs\<close>, the page has exactly one link for \<open>/a\<close>, with the text of the
  second anchor; read through elements without \<open>attrs\<close>, it has exactly one link for
  \<open>/a\<close>, with empty text.
\<close>

theorem C4_one_link_per_href_witness:
  "map fst (collect_hrefs page_two_texts) = [''/a'']
   \<and> urljoin py_urllib ''https://site.com/'' ''/a'' = Some ''https://site.com/a''
   \<and> map_option pr_scheme (urlparse py_urllib ''https://site.com/a'') = Some ''https''
   \<and> length (filter (\<lambda>l. original_href l = ''/a'')
        (extract_links_from_page py_urllib page_two_texts ''https://site.com/'' ''site.com''
           False)) = 1
   \<and> map (\<lambda>l. (original_href l, link_text l, source l))
     (extract_links_from_page py_urllib page_two_texts ''https://site.com/'' ''site.com'' False)
     = [(''/a'', ''Second'', ''footer'')]
   \<and> map fst (collect_hrefs page_two_texts_fallback) = [''/a'']
   \<and> length (filter (\<lambda>l. original_href l = ''/a'')
        (extract_links_from_page py_urllib page_two_texts_fallback ''https://site.com/''
           ''site.com'' False)) = 1
   \<and> map (\<lambda>l. (original_href l, link_text l, source l))
     (extract_links_from_page py_urllib page_two_texts_fallback ''https://site.com/''
        ''site.com'' False)
     = [(''/a'', [], ''unknown'')]"
proof -
  have k1: "map fst (collect_hrefs page_two_texts) = [''/a'']" by code_simp
  have k2: "map fst (collect_hrefs page_two_texts_fallback) = [''/a'']" by code_simp
  have j: "urljoin py_urllib ''https://site.com/'' ''/a'' = Some ''https://site.com/a''"
    by code_simp
  have p: "urlparse py_urllib ''https://site.com/a''
      = Some \<lparr>pr_scheme = ''https'', pr_netloc = ''site.com'', pr_path = ''/a'',
               pr_params = [], pr_query = [], pr_fragment = []\<rparr>"
    by code_simp
  have s: "\<not> startswith ''/a'' ''#''" "\<not> startswith ''/a'' ''mailto:''"
    "\<not> startswith ''/a'' ''javascript:''"
    by code_simp+
  have t1: "map (\<lambda>l. (original_href l, link_text l, source l))
     (extract_links_from_page py_urllib page_two_texts ''https://site.com/'' ''site.com'' False)
     = [(''/a'', ''Second'', ''footer'')]" by code_simp
  have t2: "map (\<lambda>l. (original_href l, link_text l, source l))
     (extract_links_from_page py_urllib page_two_texts_fallback ''https://site.com/''
        ''site.com'' False)
     = [(''/a'', [], ''unknown'')]" by code_simp
  have e1: "length (filter (\<lambda>l. original_href l = ''/a'')
        (extract_links_from_page py_urllib page_two_texts ''https://site.com/'' ''site.com''
           False)) = 1"
    using C4_one_link_per_href [of py_urllib page_two_texts "''https://site.com/''" "''site.com''" False]
      k1 j p s by simp
  have e2: "length (filter (\<lambda>l. original_href l = ''/a'')
        (extract_links_from_page py_urllib page_two_texts_fallback ''https://site.com/''
           ''site.com'' False)) = 1"
    using C4_one_link_per_href [of py_urllib page_two_texts_fallback "''https://site.com/''" "''site.com''"
        False]
      k2 j p s by simp
  from k1 k2 j p t1 t2 e1 e2 show ?thesis by simp
qed

text \<open>
  The claim as stated fails: the link for \<open>/a\<close> carries the last-seen text and source
  on the primary path, and no anchor text at all on the fallback path, not the first-seen
  ones; and a page whose repeated \<open>href\<close> is \<open>#top\<close> has no link for it, on either
  path, not exactly one.
\<close>

theorem C4_one_link_per_href_counterexample:
  "map (\<lambda>l. (original_href l, link_text l, source l))
     (extract_links_from_page py_urllib page_two_texts ''https://site.com/'' ''site.com'' False)
     = [(''/a'', ''Second'', ''footer'')]
   \<and> map (\<lambda>l. (original_href l, link_text l, source l))
     (extract_links_from_page py_urllib page_two_texts_fallback ''https://site.com/''
        ''site.com'' False)
     = [(''/a'', [], ''unknown'')]
   \<and> extract_links_from_page py_urllib page_fragments ''https://site.com/'' ''site.com'' False
     = []
   \<and> extract_links_from_page py_urllib page_fragments_fallback ''https://site.com/''
        ''site.com'' False
     = []"
  by code_simp

text \<open>
  C5. Every link of the output has a URL that parses with the scheme \<open>http\<close> or
  \<open>https\<close>, and an \<open>original_href\<close> that is not empty and starts with none of \<open>#\<close>,
  \<open>mailto:\<close> and \<open>javascript:\<close>. An anchor whose \<open>href\<close> is absent, empty or starts
  with one of the three prefixes yields no link: no link of the output has the anchor's
  key as its \<open>original_href\<close>. The same holds for the \<open>href\<close> texts of the fallback
  query.
\<close>

theorem C5_only_http_links:
  "(\<forall>l\<in>set (extract_links_from_page L r cu b incl).
      (\<exists>p. urlparse L (url l) = Some p \<and> (pr_scheme p = ''http'' \<or> pr_scheme p = ''https''))
      \<and> original_href l \<noteq> []
      \<and> \<not> startswith (original_href l) ''#''
      \<and> \<not> startswith (original_href l) ''mailto:''
      \<and> \<not> startswith (original_href l) ''javascript:'')
   \<and> (\<forall>a\<in>set (r_anchors r).
        (a_href a = None \<or> a_href a = Some []
         \<or> (\<exists>h. a_href a = Some h \<and> (startswith h ''#'' \<or> startswith h ''mailto:''
                \<or> startswith h ''javascript:'')))
        \<longrightarrow> (\<forall>l\<in>set (extract_links_from_page L r cu b incl).
               anchor_key a \<noteq> Some (original_href l)))
   \<and> (\<forall>h\<in>set (r_href_attrs r).
        (h = [] \<or> startswith h ''#'' \<or> startswith h ''mailto:'' \<or> startswith h ''javascript:'')
        \<longrightarrow> (\<forall>l\<in>set (extract_links_from_page L r cu b incl). strip h \<noteq> original_href l))"
proof -
  have one: "(\<exists>p. urlparse L (url l) = Some p \<and> (pr_scheme p = ''http'' \<or> pr_scheme p = ''https''))
      \<and> original_href l \<noteq> []
      \<and> \<not> startswith (original_href l) ''#''
      \<and> \<not> startswith (original_href l) ''mailto:''
      \<and> \<not> startswith (original_href l) ''javascript:''"
    if "l \<in> set (extract_links_from_page L r cu b incl)" for l
    using extract_link_entry [OF that]
      process_href_Emit [of L cu b incl "original_href l" "link_text l" "source l" l]
    by blast
  have two: "anchor_key a \<noteq> Some (original_href l)"
    if "l \<in> set (extract_links_from_page L r cu b incl)"
      and "a_href a = None \<or> a_href a = Some []
         \<or> (\<exists>h. a_href a = Some h \<and> (startswith h ''#'' \<or> startswith h ''mailto:''
                \<or> startswith h ''javascript:''))" for l a
  proof
    assume k: "anchor_key a = Some (original_href l)"
    then obtain h where h: "a_href a = Some h" "h \<noteq> []" "strip h = original_href l"
      by (auto simp: anchor_key_def split: option.splits if_splits)
    with that(2) have "startswith h ''#'' \<or> startswith h ''mailto:'' \<or> startswith h ''javascript:''"
      by auto
    from strip_keeps_skip_prefix [OF this] h one [OF that(1)] show False by auto
  qed
  have three: "strip h \<noteq> original_href l"
    if "l \<in> set (extract_links_from_page L r cu b incl)"
      and "h = [] \<or> startswith h ''#'' \<or> startswith h ''mailto:'' \<or> startswith h ''javascript:''"
    for l h
  proof (cases "h = []")
    case True
    then have "strip h = []" by (simp add: strip_def)
    with one [OF that(1)] show ?thesis by auto
  next
    case False
    with that(2) have "startswith h ''#'' \<or> startswith h ''mailto:'' \<or> startswith h ''javascript:''"
      by auto
    from strip_keeps_skip_prefix [OF this] one [OF that(1)] show ?thesis by auto
  qed
  from one two three show ?thesis by blast
qed

text \<open>
  The example page has six anchors, two of them with a skipped prefix; its four links
  all have the scheme \<open>https\<close>.
\<close>

theorem C5_only_http_links_witness:
  "map original_href
     (extract_links_from_page py_urllib example_page ''https://site.com/'' ''site.com'' False)
     = [''/about'', ''https://other.com/x'', ''/doc.pdf'', ''https://blog.site.com/x'']
   \<and> list_all (\<lambda>l. \<exists>p. urlparse py_urllib (url l) = Some p
                      \<and> (pr_scheme p = ''http'' \<or> pr_scheme p = ''https''))
       (extract_links_from_page py_urllib example_page ''https://site.com/'' ''site.com'' False)"
proof -
  have a: "map original_href
     (extract_links_from_page py_urllib example_page ''https://site.com/'' ''site.com'' False)
     = [''/about'', ''https://other.com/x'', ''/doc.pdf'', ''https://blog.site.com/x'']"
    by code_simp
  from C5_only_http_links [of py_urllib example_page "''https://site.com/''" "''site.com''" False]
  have "list_all (\<lambda>l. \<exists>p. urlparse py_urllib (url l) = Some p
                      \<and> (pr_scheme p = ''http'' \<or> pr_scheme p = ''https''))
       (extract_links_from_page py_urllib example_page ''https://site.com/'' ''site.com'' False)"
    unfolding list_all_iff by blast
  with a show ?thesis by blast
qed

section \<open>The crawl loop\<close>

subsection \<open>One iteration\<close>

lemma enqueue_links_Cons:
  "enqueue_links L incl vis d (l # ls) q =
     (if \<not> (is_internal l \<or> (incl \<and> is_subdomain l)) then enqueue_links L incl vis d ls q
      else case urlparse L (url l) of
             None \<Rightarrow> (q, True)
           | Some p \<Rightarrow>
               if path_suffix (pr_path p) = [] \<and> url l |\<notin>| vis
               then enqueue_links L incl vis d ls (q @ [(url l, d + 1)])
               else enqueue_links L incl vis d ls q)"
  by simp

lemma enqueue_links_acc:
  "enqueue_links L incl vis d ls q
     = (q @ fst (enqueue_links L incl vis d ls []), snd (enqueue_links L incl vis d ls []))"
proof (induction ls arbitrary: q)
  case Nil
  show ?case by simp
next
  case (Cons l ls)
  define c where "c = (is_internal l \<or> (incl \<and> is_subdomain l))"
  define e where "e = (path_suffix (pr_path (the (urlparse L (url l)))) = [] \<and> url l |\<notin>| vis)"
  have eq: "enqueue_links L incl vis d (l # ls) q' =
     (if \<not> c then enqueue_links L incl vis d ls q'
      else if urlparse L (url l) = None then (q', True)
      else if e then enqueue_links L incl vis d ls (q' @ [(url l, d + 1)])
      else enqueue_links L incl vis d ls q')" for q'
    unfolding enqueue_links_Cons c_def e_def by (simp split: option.splits)
  show ?case
    unfolding eq [of q] eq [of "[]"]
    using Cons [of q] Cons [of "q @ [(url l, d + 1)]"] Cons [of "[(url l, d + 1)]"]
    by simp
qed

lemma enqueue_links_sound:
  "(u, k) \<in> set (fst (enqueue_links L incl vis d ls []))
   \<Longrightarrow> k = d + 1
       \<and> (\<exists>l\<in>set ls. url l = u \<and> (is_internal l \<or> (incl \<and> is_subdomain l))
             \<and> (\<exists>p. urlparse L u = Some p \<and> path_suffix (pr_path p) = [])
             \<and> u |\<notin>| vis)"
proof (induction ls)
  case Nil
  then show ?case by simp
next
  case (Cons l ls)
  define c where "c = (is_internal l \<or> (incl \<and> is_subdomain l))"
  define e where "e = (path_suffix (pr_path (the (urlparse L (url l)))) = [] \<and> url l |\<notin>| vis)"
  have eq: "enqueue_links L incl vis d (l # ls) [] =
     (if \<not> c then enqueue_links L incl vis d ls []
      else if urlparse L (url l) = None then ([], True)
      else if e then enqueue_links L incl vis d ls [(url l, d + 1)]
      else enqueue_links L incl vis d ls [])"
    unfolding enqueue_links_Cons c_def e_def by (simp split: option.splits)
  have here: "c \<and> urlparse L (url l) \<noteq> None \<and> e \<Longrightarrow>
      (is_internal l \<or> (incl \<and> is_subdomain l))
      \<and> (\<exists>p. urlparse L (url l) = Some p \<and> path_suffix (pr_path p) = [])
      \<and> url l |\<notin>| vis"
    unfolding c_def e_def by auto
  from Cons.prems
  have "(u, k) \<in> set (fst (enqueue_links L incl vis d ls []))
        \<or> (c \<and> urlparse L (url l) \<noteq> None \<and> e \<and> (u, k) = (url l, d + 1))"
    unfolding eq
    using enqueue_links_acc [of L incl vis d ls "[(url l, d + 1)]"]
    by (auto split: if_splits)
  then show ?case
  proof
    assume "(u, k) \<in> set (fst (enqueue_links L incl vis d ls []))"
    from Cons.IH [OF this] show ?thesis by auto
  next
    assume a: "c \<and> urlparse L (url l) \<noteq> None \<and> e \<and> (u, k) = (url l, d + 1)"
    with here have "(is_internal l \<or> (incl \<and> is_subdomain l))
      \<and> (\<exists>p. urlparse L (url l) = Some p \<and> path_suffix (pr_path p) = [])
      \<and> url l |\<notin>| vis" by blast
    with a show ?thesis by auto
  qed
qed

lemma crawl_step_skip:
  assumes "to_visit s = (cu, d) # rest" and "cu |\<in>| visited s \<or> d > depth opts"
  shows "crawl_step L F opts b s = s\<lparr>to_visit := rest\<rparr>"
  using assms by (auto simp: crawl_step_def)

lemma crawl_step_fail:
  assumes "to_visit s = (cu, d) # rest" and "cu |\<notin>| visited s" and "d \<le> depth opts"
    and "fetch_page F (javascript opts) cu = None"
  shows "crawl_step L F opts b s =
     s\<lparr>to_visit := rest, visited := finsert cu (visited s),
       total_pages_crawled := total_pages_crawled s + 1,
       fetch_log := fetch_log s @ [cu],
       requests := requests s @ fetch_requests F (javascript opts) cu,
       warnings := warnings s @ [cu]\<rparr>"
  using assms by (simp add: crawl_step_def)

lemma crawl_step_ok:
  assumes "to_visit s = (cu, d) # rest" and "cu |\<notin>| visited s" and "d \<le> depth opts"
    and "fetch_page F (javascript opts) cu = Some r"
  shows "visited (crawl_step L F opts b s) = finsert cu (visited s)
     \<and> fetch_log (crawl_step L F opts b s) = fetch_log s @ [cu]
     \<and> to_visit (crawl_step L F opts b s) =
         rest @ (if d < depth opts
                 then fst (enqueue_links L (include_subdomains opts) (finsert cu (visited s)) d
                        (extract_links_from_page L r cu b (include_subdomains opts)) [])
                 else [])
     \<and> all_links (crawl_step L F opts b s) =
         all_links s
           @ filter_links (extract_links_from_page L r cu b (include_subdomains opts))
               (internal_only opts) (external_only opts) (subdomains_only opts)
               (extensions opts) (filter_types opts) (unique_only opts)
               (if unique_only opts then Some (all_links s) else None)
     \<and> (all_pages (crawl_step L F opts b s) = all_pages s
         \<or> all_pages (crawl_step L F opts b s) =
             all_pages s @ [make_page_data opts cu d r
                 (extract_links_from_page L r cu b (include_subdomains opts))])
     \<and> (warnings (crawl_step L F opts b s) = warnings s
         \<or> warnings (crawl_step L F opts b s) = warnings s @ [cu])
     \<and> requests (crawl_step L F opts b s)
         = requests s @ fetch_requests F (javascript opts) cu"
proof (cases "d < depth opts")
  case False
  with assms show ?thesis
    by (simp add: crawl_step_def Let_def)
next
  case True
  let ?pl = "extract_links_from_page L r cu b (include_subdomains opts)"
  obtain q raised where e: "enqueue_links L (include_subdomains opts) (finsert cu (visited s)) d
      ?pl [] = (q, raised)"
    by (cases "enqueue_links L (include_subdomains opts) (finsert cu (visited s)) d ?pl []")
  then have "enqueue_links L (include_subdomains opts) (finsert cu (visited s)) d ?pl rest
      = (rest @ q, raised)"
    using enqueue_links_acc [of L "include_subdomains opts" "finsert cu (visited s)" d ?pl rest]
    by simp
  with True assms e show ?thesis
    by (cases raised) (simp_all add: crawl_step_def Let_def)
qed

subsection \<open>The whole loop\<close>

lemma crawl_loop_stop: "\<not> loop_cond opts s \<Longrightarrow> crawl_loop L F opts b s = s"
  by (subst crawl_loop.simps) simp

lemma crawl_loop_unfold:
  "loop_cond opts s \<Longrightarrow> crawl_loop L F opts b s = crawl_loop L F opts b (crawl_step L F opts b s)"
  by (subst crawl_loop.simps) simp

lemma crawl_loop_invariant:
  "I s \<Longrightarrow> (\<forall>s. I s \<and> loop_cond opts s \<longrightarrow> I (crawl_step L F opts b s))
   \<Longrightarrow> I (crawl_loop L F opts b s)"
proof (induction L F opts b s rule: crawl_loop.induct)
  case (1 L F opts b s)
  show ?case
  proof (cases "loop_cond opts s")
    case True
    with 1(2,3) have "I (crawl_step L F opts b s)" by blast
    from 1(1) [OF True this 1(3)] True show ?thesis
      by (subst crawl_loop.simps) simp
  next
    case False
    with 1(2) show ?thesis by (subst crawl_loop.simps) simp
  qed
qed

text \<open>The loop returns the state reached after some number of iterations.\<close>

lemma crawl_loop_iterations:
  "\<exists>n. crawl_loop L F opts b s = (crawl_step L F opts b ^^ n) s
       \<and> \<not> loop_cond opts ((crawl_step L F opts b ^^ n) s)
       \<and> (\<forall>m<n. loop_cond opts ((crawl_step L F opts b ^^ m) s))"
proof (induction L F opts b s rule: crawl_loop.induct)
  case (1 L F opts b s)
  show ?case
  proof (cases "loop_cond opts s")
    case False
    then have "crawl_loop L F opts b s = s" by (subst crawl_loop.simps) simp
    with False show ?thesis by (intro exI [of _ 0]) simp
  next
    case True
    from 1 [OF True] obtain n where
      n: "crawl_loop L F opts b (crawl_step L F opts b s)
            = (crawl_step L F opts b ^^ n) (crawl_step L F opts b s)"
        "\<not> loop_cond opts ((crawl_step L F opts b ^^ n) (crawl_step L F opts b s))"
        "\<forall>m<n. loop_cond opts ((crawl_step L F opts b ^^ m) (crawl_step L F opts b s))"
      by blast
    have "crawl_loop L F opts b s = crawl_loop L F opts b (crawl_step L F opts b s)"
      using True by (subst crawl_loop.simps) simp
    with n(1) have a: "crawl_loop L F opts b s = (crawl_step L F opts b ^^ Suc n) s"
      by (simp add: funpow_swap1)
    have b: "\<not> loop_cond opts ((crawl_step L F opts b ^^ Suc n) s)"
      using n(2) by (simp add: funpow_swap1)
    have c: "loop_cond opts ((crawl_step L F opts b ^^ m) s)" if "m < Suc n" for m
    proof (cases m)
      case 0
      with True show ?thesis by simp
    next
      case (Suc k)
      with that n(3) show ?thesis by (simp add: funpow_swap1)
    qed
    from a b c show ?thesis by blast
  qed
qed

lemma filter_links_subset:
  "set (filter_links links io eo so ex ft uo el) \<subseteq> set links"
  by (auto simp: filter_links_def Let_def filter_by_extensions_eq filter_by_types_eq
       split: option.splits)

lemma crawl_inv_initial: "crawl_inv F opts (initial_state seed)"
  by (simp add: crawl_inv_def initial_state_def)

lemma crawl_inv_step:
  assumes "crawl_inv F opts s"
  shows "crawl_inv F opts (crawl_step L F opts b s)"
proof (cases "to_visit s")
  case Nil
  with assms show ?thesis by (simp add: crawl_step_def)
next
  case (Cons e rest)
  obtain cu d where e: "e = (cu, d)" by (cases e)
  with Cons have tv: "to_visit s = (cu, d) # rest" by simp
  show ?thesis
  proof (cases "cu |\<in>| visited s \<or> d > depth opts")
    case True
    from crawl_step_skip [OF tv True] assms show ?thesis by (simp add: crawl_inv_def)
  next
    case False
    then have nv: "cu |\<notin>| visited s" and dd: "d \<le> depth opts" by auto
    from nv assms have nl: "cu \<notin> set (fetch_log s)" by (simp add: crawl_inv_def)
    show ?thesis
    proof (cases "fetch_page F (javascript opts) cu")
      case None
      from crawl_step_fail [OF tv nv dd None] assms nl show ?thesis
        by (auto simp: crawl_inv_def)
    next
      case (Some r)
      let ?t = "crawl_step L F opts b s"
      let ?pl = "extract_links_from_page L r cu b (include_subdomains opts)"
      from crawl_step_ok [OF tv nv dd Some, of L b]
      have v: "visited ?t = finsert cu (visited s)"
        and fl: "fetch_log ?t = fetch_log s @ [cu]"
        and al: "all_links ?t = all_links s
           @ filter_links ?pl (internal_only opts) (external_only opts) (subdomains_only opts)
               (extensions opts) (filter_types opts) (unique_only opts)
               (if unique_only opts then Some (all_links s) else None)"
        and ap: "all_pages ?t = all_pages s
           \<or> all_pages ?t = all_pages s @ [make_page_data opts cu d r ?pl]"
        and w: "warnings ?t = warnings s \<or> warnings ?t = warnings s @ [cu]"
        by blast+
      have 1: "distinct (fetch_log ?t)" using fl nl assms by (simp add: crawl_inv_def)
      have 2: "set (fetch_log ?t) = fset (visited ?t)"
        using fl v assms by (simp add: crawl_inv_def)
      have 3: "\<forall>p\<in>set (all_pages ?t). fetch_page F (javascript opts) (pd_url p) \<noteq> None"
        using ap assms Some by (auto simp: crawl_inv_def make_page_data_def)
      have 4: "\<forall>l\<in>set (all_links ?t). fetch_page F (javascript opts) (found_on_page l) \<noteq> None"
      proof
        fix l assume "l \<in> set (all_links ?t)"
        with al have "l \<in> set (all_links s) \<or> l \<in> set ?pl"
          using filter_links_subset by fastforce
        then show "fetch_page F (javascript opts) (found_on_page l) \<noteq> None"
          using assms Some extract_found_on_page [of l L r cu b "include_subdomains opts"]
          by (auto simp: crawl_inv_def)
      qed
      have 5: "\<forall>u\<in>set (fetch_log ?t). fetch_page F (javascript opts) u = None
                 \<longrightarrow> u \<in> set (warnings ?t)"
        using fl w assms Some by (auto simp: crawl_inv_def)
      from 1 2 3 4 5 show ?thesis unfolding crawl_inv_def by blast
    qed
  qed
qed

lemma crawl_inv_final: "crawl_inv F opts (crawl_loop L F opts b (initial_state seed))"
  using crawl_loop_invariant [of "crawl_inv F opts" "initial_state seed" opts L F b]
    crawl_inv_initial [of F opts seed] crawl_inv_step [of F opts _ L b]
  by blast

lemma frontier_inv_step:
  assumes "frontier_inv L opts seed s"
  shows "frontier_inv L opts seed (crawl_step L F opts b s)"
proof (cases "to_visit s")
  case Nil
  with assms show ?thesis by (simp add: crawl_step_def)
next
  case (Cons e rest)
  obtain cu d where e: "e = (cu, d)" by (cases e)
  with Cons have tv: "to_visit s = (cu, d) # rest" by simp
  from assms tv have d0: "0 \<le> d" by (auto simp: frontier_inv_def)
  from assms tv have rest: "\<forall>(u, k)\<in>set rest. (u, k) = (seed, 0)
        \<or> (1 \<le> k \<and> k \<le> depth opts
            \<and> (\<exists>p. urlparse L u = Some p \<and> path_suffix (pr_path p) = []))"
    by (auto simp: frontier_inv_def)
  show ?thesis
  proof (cases "cu |\<in>| visited s \<or> d > depth opts")
    case True
    from crawl_step_skip [OF tv True] rest show ?thesis by (simp add: frontier_inv_def)
  next
    case False
    then have nv: "cu |\<notin>| visited s" and dd: "d \<le> depth opts" by auto
    show ?thesis
    proof (cases "fetch_page F (javascript opts) cu")
      case None
      from crawl_step_fail [OF tv nv dd None] rest show ?thesis
        by (simp add: frontier_inv_def)
    next
      case (Some r)
      from crawl_step_ok [OF tv nv dd Some, of L b]
      have tvs: "to_visit (crawl_step L F opts b s) =
         rest @ (if d < depth opts
                 then fst (enqueue_links L (include_subdomains opts) (finsert cu (visited s)) d
                        (extract_links_from_page L r cu b (include_subdomains opts)) [])
                 else [])" by blast
      have new: "1 \<le> k \<and> k \<le> depth opts
            \<and> (\<exists>p. urlparse L u = Some p \<and> path_suffix (pr_path p) = [])"
        if "d < depth opts"
          and "(u, k) \<in> set (fst (enqueue_links L (include_subdomains opts)
                 (finsert cu (visited s)) d
                 (extract_links_from_page L r cu b (include_subdomains opts)) []))" for u k
      proof -
        from enqueue_links_sound [OF that(2)]
        have "k = d + 1" and "\<exists>p. urlparse L u = Some p \<and> path_suffix (pr_path p) = []"
          by blast+
        with d0 that(1) show ?thesis by simp
      qed
      show ?thesis
      proof (cases "d < depth opts")
        case True
        with tvs rest new show ?thesis unfolding frontier_inv_def by fastforce
      next
        case False
        with tvs rest show ?thesis unfolding frontier_inv_def by simp
      qed
    qed
  qed
qed

lemma frontier_inv_funpow:
  "frontier_inv L opts seed ((crawl_step L F opts b ^^ n) (initial_state seed))"
proof (induction n)
  case 0
  show ?case by (simp add: frontier_inv_def initial_state_def)
next
  case (Suc n)
  then show ?case by (simp add: frontier_inv_step)
qed

lemma fetch_log_length:
  assumes "distinct (fetch_log s)" and "set (fetch_log s) = fset (visited s)"
  shows "length (fetch_log s) = fcard (visited s)"
  using assms by (metis distinct_card fcard.rep_eq)

lemma loop_cond_initial: "loop_cond opts (initial_state seed) \<longleftrightarrow> 1 \<le> max_pages opts"
  by (auto simp: loop_cond_def initial_state_def fcard_fempty)

lemma crawl_step_initial:
  assumes "0 \<le> depth opts"
  shows "visited (crawl_step L F opts b (initial_state seed)) = {|seed|}
     \<and> fetch_log (crawl_step L F opts b (initial_state seed)) = [seed]
     \<and> (depth opts = 0 \<longrightarrow> to_visit (crawl_step L F opts b (initial_state seed)) = [])"
proof -
  have tv: "to_visit (initial_state seed) = (seed, 0) # []"
    and nv: "seed |\<notin>| visited (initial_state seed)"
    and v: "visited (initial_state seed) = {||}"
    and fl: "fetch_log (initial_state seed) = []"
    by (simp_all add: initial_state_def)
  show ?thesis
  proof (cases "fetch_page F (javascript opts) seed")
    case None
    from crawl_step_fail [OF tv nv assms None, of L b] v fl show ?thesis by simp
  next
    case (Some r)
    from crawl_step_ok [OF tv nv assms Some, of L b] v fl show ?thesis by simp
  qed
qed

lemma crawl_bound_final:
  "int (fcard (visited (crawl_loop L F opts b (initial_state seed)))) \<le> max 0 (max_pages opts)"
proof -
  have "int (fcard (visited s)) \<le> max 0 (max_pages opts)
        \<Longrightarrow> loop_cond opts s
        \<Longrightarrow> int (fcard (visited (crawl_step L F opts b s))) \<le> max 0 (max_pages opts)" for s
    using crawl_step_measure [of opts s L F b] by (auto simp: loop_cond_def)
  then show ?thesis
    using crawl_loop_invariant
      [of "\<lambda>s. int (fcard (visited s)) \<le> max 0 (max_pages opts)" "initial_state seed" opts L F b]
    by (simp add: initial_state_def fcard_fempty)
qed

lemma crawl_nothing_fetched:
  assumes "max_pages opts \<le> 0 \<or> depth opts < 0"
  shows "fetch_log (crawl_loop L F opts b (initial_state seed)) = []
     \<and> visited (crawl_loop L F opts b (initial_state seed)) = {||}"
proof (cases "1 \<le> max_pages opts")
  case False
  then have "\<not> loop_cond opts (initial_state seed)" by (simp add: loop_cond_initial)
  then have "crawl_loop L F opts b (initial_state seed) = initial_state seed"
    by (rule crawl_loop_stop)
  then show ?thesis by (simp add: initial_state_def)
next
  case True
  with assms have neg: "depth opts < 0" by simp
  have tv: "to_visit (initial_state seed) = (seed, 0) # []"
    by (simp add: initial_state_def)
  from neg have "seed |\<in>| visited (initial_state seed) \<or> 0 > depth opts" by simp
  from crawl_step_skip [OF tv this, of L F b]
  have one: "crawl_step L F opts b (initial_state seed) = (initial_state seed)\<lparr>to_visit := []\<rparr>" .
  then have "\<not> loop_cond opts (crawl_step L F opts b (initial_state seed))"
    by (simp add: loop_cond_def)
  then have "crawl_loop L F opts b (crawl_step L F opts b (initial_state seed))
      = crawl_step L F opts b (initial_state seed)"
    by (rule crawl_loop_stop)
  moreover from True have "crawl_loop L F opts b (initial_state seed)
      = crawl_loop L F opts b (crawl_step L F opts b (initial_state seed))"
    by (simp add: crawl_loop_unfold loop_cond_initial)
  ultimately show ?thesis using one by (simp add: initial_state_def)
qed

subsection \<open>The claims about the crawl\<close>

text \<open>
  C6, as amended. The loop ends after finitely many iterations, and the number of fetched
  pages never exceeds \<open>max_pages\<close>. With \<open>max_depth = 0\<close> and \<open>max_pages\<close> at least 1 the
  loop runs once: it fetches exactly the start page and leaves the queue empty. With
  \<open>max_pages = 1\<close> and a \<open>max_depth\<close> of at least 0 it fetches exactly the start page.
  With \<open>max_pages\<close> of 0 or less, or a negative \<open>max_depth\<close>, it fetches no page.
\<close>

theorem C6_crawl_bounds:
  "(\<exists>n. crawl_loop L F opts b (initial_state seed)
          = (crawl_step L F opts b ^^ n) (initial_state seed)
        \<and> \<not> loop_cond opts ((crawl_step L F opts b ^^ n) (initial_state seed)))
   \<and> int (length (fetch_log (crawl_loop L F opts b (initial_state seed)))) \<le> max 0 (max_pages opts)
   \<and> set (fetch_log (crawl_loop L F opts b (initial_state seed)))
       = fset (visited (crawl_loop L F opts b (initial_state seed)))
   \<and> (depth opts = 0 \<and> 1 \<le> max_pages opts \<longrightarrow>
        crawl_loop L F opts b (initial_state seed) = crawl_step L F opts b (initial_state seed)
        \<and> fetch_log (crawl_loop L F opts b (initial_state seed)) = [seed]
        \<and> visited (crawl_loop L F opts b (initial_state seed)) = {|seed|}
        \<and> to_visit (crawl_loop L F opts b (initial_state seed)) = [])
   \<and> (max_pages opts = 1 \<and> 0 \<le> depth opts \<longrightarrow>
        crawl_loop L F opts b (initial_state seed) = crawl_step L F opts b (initial_state seed)
        \<and> fetch_log (crawl_loop L F opts b (initial_state seed)) = [seed]
        \<and> visited (crawl_loop L F opts b (initial_state seed)) = {|seed|})
   \<and> (max_pages opts \<le> 0 \<or> depth opts < 0 \<longrightarrow>
        fetch_log (crawl_loop L F opts b (initial_state seed)) = []
        \<and> visited (crawl_loop L F opts b (initial_state seed)) = {||})"
proof -
  let ?init = "initial_state seed"
  let ?final = "crawl_loop L F opts b ?init"
  let ?one = "crawl_step L F opts b ?init"
  have a: "\<exists>n. ?final = (crawl_step L F opts b ^^ n) ?init
        \<and> \<not> loop_cond opts ((crawl_step L F opts b ^^ n) ?init)"
    using crawl_loop_iterations [of L F opts b ?init] by blast
  have inv: "crawl_inv F opts ?final" by (rule crawl_inv_final)
  then have c: "set (fetch_log ?final) = fset (visited ?final)"
    and len: "length (fetch_log ?final) = fcard (visited ?final)"
    by (simp_all add: crawl_inv_def fetch_log_length)
  from len crawl_bound_final [of L F opts b seed]
  have b: "int (length (fetch_log ?final)) \<le> max 0 (max_pages opts)" by simp
  have d: "?final = ?one \<and> fetch_log ?final = [seed] \<and> visited ?final = {|seed|}
           \<and> to_visit ?final = []"
    if "depth opts = 0" and "1 \<le> max_pages opts"
  proof -
    from that(1) have "0 \<le> depth opts" by simp
    from crawl_step_initial [OF this, of L F b seed] that(1)
    have s: "visited ?one = {|seed|}" "fetch_log ?one = [seed]" "to_visit ?one = []"
      by simp_all
    then have "\<not> loop_cond opts ?one" by (simp add: loop_cond_def)
    then have "crawl_loop L F opts b ?one = ?one" by (rule crawl_loop_stop)
    moreover from that(2) have "?final = crawl_loop L F opts b ?one"
      by (simp add: crawl_loop_unfold loop_cond_initial)
    ultimately show ?thesis using s by simp
  qed
  have e: "?final = ?one \<and> fetch_log ?final = [seed] \<and> visited ?final = {|seed|}"
    if "max_pages opts = 1" and "0 \<le> depth opts"
  proof -
    from crawl_step_initial [OF that(2), of L F b seed]
    have s: "visited ?one = {|seed|}" "fetch_log ?one = [seed]" by simp_all
    with that(1) have "\<not> loop_cond opts ?one"
      by (simp add: loop_cond_def fcard_finsert_if fcard_fempty)
    then have "crawl_loop L F opts b ?one = ?one" by (rule crawl_loop_stop)
    moreover from that(1) have "?final = crawl_loop L F opts b ?one"
      by (simp add: crawl_loop_unfold loop_cond_initial)
    ultimately show ?thesis using s by simp
  qed
  have f: "fetch_log ?final = [] \<and> visited ?final = {||}"
    if "max_pages opts \<le> 0 \<or> depth opts < 0"
    using that by (rule crawl_nothing_fetched)
  from a b c d e f show ?thesis by blast
qed

text \<open>
  On the example site, depth 0 with 50 pages and depth 2 with 1 page both fetch the start
  page only.
\<close>

theorem C6_crawl_bounds_witness:
  "depth (example_options 0 50) = 0 \<and> 1 \<le> max_pages (example_options 0 50)
   \<and> fetch_log (crawl_loop py_urllib example_fetchers (example_options 0 50) ''site.com''
        (initial_state ''https://site.com/'')) = [''https://site.com/'']
   \<and> to_visit (crawl_loop py_urllib example_fetchers (example_options 0 50) ''site.com''
        (initial_state ''https://site.com/'')) = []
   \<and> max_pages (example_options 2 1) = 1 \<and> 0 \<le> depth (example_options 2 1)
   \<and> fetch_log (crawl_loop py_urllib example_fetchers (example_options 2 1) ''site.com''
        (initial_state ''https://site.com/'')) = [''https://site.com/'']"
proof -
  have h1: "depth (example_options 0 50) = 0 \<and> 1 \<le> max_pages (example_options 0 50)"
    by (simp add: example_options_def)
  have h2: "max_pages (example_options 2 1) = 1 \<and> 0 \<le> depth (example_options 2 1)"
    by (simp add: example_options_def)
  from C6_crawl_bounds [of py_urllib example_fetchers "example_options 0 50" "''site.com''" "''https://site.com/''"]
    C6_crawl_bounds [of py_urllib example_fetchers "example_options 2 1" "''site.com''" "''https://site.com/''"]
    h1 h2
  show ?thesis by blast
qed

text \<open>
  The claim as stated fails: with \<open>max_depth = 0\<close> and \<open>max_pages = 0\<close> the loop body
  never runs, and with \<open>max_pages = 1\<close> and \<open>max_depth = -1\<close> the start entry is skipped;
  in both runs no page is fetched.
\<close>

theorem C6_crawl_bounds_counterexample:
  "fetch_log (crawl_loop py_urllib example_fetchers (example_options 0 0) ''site.com''
      (initial_state ''https://site.com/'')) = []
   \<and> fetch_log (crawl_loop py_urllib example_fetchers (example_options (- 1) 1) ''site.com''
      (initial_state ''https://site.com/'')) = []"
  by code_simp

text \<open>
  C7. One iteration removes the first queue entry and appends entries only under the
  stated conditions: the depth of the current page is below the maximum, the new depth is
  one more, and the URL is the one of a link of the current page that is internal (or a
  subdomain link, with \<open>include_subdomains\<close>), whose path has no suffix, and which is
  not in the visited set, the current page included. Hence in every state of a run each
  queue entry other than the start entry has a depth from 1 to the maximum and a path
  without a file extension.
\<close>

theorem C7_enqueue_conditions:
  "(\<forall>cu d rest. to_visit s = (cu, d) # rest \<longrightarrow>
      (\<exists>new. to_visit (crawl_step L F opts b s) = rest @ new
         \<and> (\<forall>(u, k)\<in>set new.
               d < depth opts \<and> k = d + 1
               \<and> (\<exists>r l. fetch_page F (javascript opts) cu = Some r
                    \<and> l \<in> set (extract_links_from_page L r cu b (include_subdomains opts))
                    \<and> url l = u
                    \<and> (is_internal l \<or> (include_subdomains opts \<and> is_subdomain l))
                    \<and> (\<exists>p. urlparse L u = Some p \<and> path_suffix (pr_path p) = [])
                    \<and> u |\<notin>| finsert cu (visited s)))))
   \<and> (\<forall>n. \<forall>(u, k)\<in>set (to_visit ((crawl_step L F opts b ^^ n) (initial_state seed))).
         (u, k) = (seed, 0)
         \<or> (1 \<le> k \<and> k \<le> depth opts
             \<and> (\<exists>p. urlparse L u = Some p \<and> path_suffix (pr_path p) = [])))"
proof -
  have one: "\<exists>new. to_visit (crawl_step L F opts b s) = rest @ new
         \<and> (\<forall>(u, k)\<in>set new.
               d < depth opts \<and> k = d + 1
               \<and> (\<exists>r l. fetch_page F (javascript opts) cu = Some r
                    \<and> l \<in> set (extract_links_from_page L r cu b (include_subdomains opts))
                    \<and> url l = u
                    \<and> (is_internal l \<or> (include_subdomains opts \<and> is_subdomain l))
                    \<and> (\<exists>p. urlparse L u = Some p \<and> path_suffix (pr_path p) = [])
                    \<and> u |\<notin>| finsert cu (visited s)))"
    if tv: "to_visit s = (cu, d) # rest" for cu d rest
  proof (cases "cu |\<in>| visited s \<or> d > depth opts")
    case True
    from crawl_step_skip [OF tv True, of L F b] show ?thesis by (intro exI [of _ "[]"]) simp
  next
    case False
    then have nv: "cu |\<notin>| visited s" and dd: "d \<le> depth opts" by auto
    show ?thesis
    proof (cases "fetch_page F (javascript opts) cu")
      case None
      from crawl_step_fail [OF tv nv dd None, of L b] show ?thesis
        by (intro exI [of _ "[]"]) simp
    next
      case (Some r)
      let ?pl = "extract_links_from_page L r cu b (include_subdomains opts)"
      let ?new = "if d < depth opts
                 then fst (enqueue_links L (include_subdomains opts) (finsert cu (visited s)) d
                        ?pl [])
                 else []"
      from crawl_step_ok [OF tv nv dd Some, of L b]
      have t: "to_visit (crawl_step L F opts b s) = rest @ ?new" by blast
      have "d < depth opts \<and> k = d + 1
               \<and> (\<exists>r l. fetch_page F (javascript opts) cu = Some r
                    \<and> l \<in> set (extract_links_from_page L r cu b (include_subdomains opts))
                    \<and> url l = u
                    \<and> (is_internal l \<or> (include_subdomains opts \<and> is_subdomain l))
                    \<and> (\<exists>p. urlparse L u = Some p \<and> path_suffix (pr_path p) = [])
                    \<and> u |\<notin>| finsert cu (visited s))"
        if m: "(u, k) \<in> set ?new" for u k
      proof -
        from m have lt: "d < depth opts" by (auto split: if_splits)
        with m have "(u, k) \<in> set (fst (enqueue_links L (include_subdomains opts)
              (finsert cu (visited s)) d ?pl []))" by simp
        from enqueue_links_sound [OF this] lt Some show ?thesis by blast
      qed
      with t show ?thesis by (intro exI [of _ ?new]) blast
    qed
  qed
  have two: "\<forall>(u, k)\<in>set (to_visit ((crawl_step L F opts b ^^ n) (initial_state seed))).
         (u, k) = (seed, 0)
         \<or> (1 \<le> k \<and> k \<le> depth opts
             \<and> (\<exists>p. urlparse L u = Some p \<and> path_suffix (pr_path p) = []))" for n
    by (rule frontier_inv_funpow [unfolded frontier_inv_def])
  from one two show ?thesis by blast
qed

text \<open>
  The first iteration on the example site enqueues the page link and the subdomain link,
  both without a suffix, and neither the PDF nor the external link.
\<close>

theorem C7_enqueue_conditions_witness:
  "to_visit ((crawl_step py_urllib example_fetchers (example_options 2 50) ''site.com'' ^^ 1)
      (initial_state ''https://site.com/''))
     = [(''https://site.com/about'', 1), (''https://blog.site.com/x'', 1)]
   \<and> (\<exists>p. urlparse py_urllib ''https://site.com/about'' = Some p
          \<and> path_suffix (pr_path p) = [])
   \<and> (\<exists>p. urlparse py_urllib ''https://blog.site.com/x'' = Some p
          \<and> path_suffix (pr_path p) = [])"
proof -
  have a: "to_visit ((crawl_step py_urllib example_fetchers (example_options 2 50) ''site.com'' ^^ 1)
      (initial_state ''https://site.com/''))
     = [(''https://site.com/about'', 1), (''https://blog.site.com/x'', 1)]"
    by code_simp
  from C7_enqueue_conditions [of "initial_state ''https://site.com/''" py_urllib example_fetchers
      "example_options 2 50" "''site.com''" "''https://site.com/''"]
  have "\<forall>(u, k)\<in>set (to_visit ((crawl_step py_urllib example_fetchers (example_options 2 50)
            ''site.com'' ^^ 1) (initial_state ''https://site.com/''))).
         (u, k) = (''https://site.com/'', 0)
         \<or> (1 \<le> k \<and> k \<le> depth (example_options 2 50)
             \<and> (\<exists>p. urlparse py_urllib u = Some p \<and> path_suffix (pr_path p) = []))"
    by blast
  with a show ?thesis by simp
qed









end
